theory Spec2Isabelle
  imports Complex_Main "HOL-Library.Word"
begin

unbundle bit_operations_syntax

section \<open>IEEE 754 binary floating point, round to nearest even\<close>

text \<open>
  The kernels compute in \<^verbatim>\<open>double\<close> and \<^verbatim>\<open>float\<close>. Both are modelled by one type of
  values: a NaN, the two infinities, and the finite values, each a sign and a magnitude
  counted in units of the smallest subnormal of its format (\<open>2^-149\<close> for binary32,
  \<open>2^-1074\<close> for binary64). The sign is \<open>True\<close> for a set sign bit, so \<open>Fin True 0\<close> is
  the negative zero. Every operator of the source is one correctly rounded operation.
\<close>

datatype fp = NaN | Infty bool | Fin bool nat

record format =
  prec :: nat
  uexp :: nat
  top :: nat

definition binary32 :: format where
  "binary32 = \<lparr>prec = 24, uexp = 149, top = 277\<rparr>"

definition binary64 :: format where
  "binary64 = \<lparr>prec = 53, uexp = 1074, top = 2098\<rparr>"

text \<open>The number of binary digits of \<open>n\<close>, taken off in groups to keep the recursion short.\<close>

function bit_length :: "nat \<Rightarrow> nat" where
  "bit_length n =
     (if 2 ^ 256 \<le> n then 256 + bit_length (drop_bit 256 n)
      else if 2 ^ 16 \<le> n then 16 + bit_length (drop_bit 16 n)
      else if n = 0 then 0
      else 1 + bit_length (drop_bit 1 n))"
  by pat_completeness auto
termination
  by (relation "measure (\<lambda>n. n)") (auto simp: drop_bit_eq_div)

declare bit_length.simps [simp del]

text \<open>
  \<open>round_even m k\<close> is \<open>m / 2^k\<close> rounded to the nearest integer, ties to even:
  \<open>round_pick q r k\<close> decides from the quotient \<open>q\<close> and the remainder \<open>r\<close>.
\<close>

definition round_pick :: "nat \<Rightarrow> nat \<Rightarrow> nat \<Rightarrow> nat" where
  "round_pick q r k = (if 2 ^ k < 2 * r \<or> (2 * r = 2 ^ k \<and> odd q) then q + 1 else q)"

definition round_even :: "nat \<Rightarrow> nat \<Rightarrow> nat" where
  "round_even m k = round_pick (drop_bit k m) (m - push_bit k (drop_bit k m)) k"

text \<open>A magnitude of \<open>2^top\<close> units or more is beyond the largest finite value.\<close>

definition fp_pack :: "format \<Rightarrow> bool \<Rightarrow> nat \<Rightarrow> fp" where
  "fp_pack F s n = (if 2 ^ top F \<le> n then Infty s else Fin s n)"

text \<open>
  \<open>fp_round F s m e\<close> rounds the exact value \<open>\<plusminus> m * 2^e\<close> units to the format: it
  drops the \<open>k\<close> low bits of \<open>m\<close> that do not fit the precision or lie below the unit.
\<close>

definition fp_round_at :: "format \<Rightarrow> bool \<Rightarrow> nat \<Rightarrow> int \<Rightarrow> nat \<Rightarrow> fp" where
  "fp_round_at F s m e k = fp_pack F s (round_even m k * 2 ^ nat (int k + e))"

definition fp_round :: "format \<Rightarrow> bool \<Rightarrow> nat \<Rightarrow> int \<Rightarrow> fp" where
  "fp_round F s m e =
     fp_round_at F s m e (nat (max (int (bit_length m) - int (prec F)) (- e)))"

text \<open>
  \<open>fp_round_quot F s a b\<close> rounds the exact quotient \<open>\<plusminus> a / b\<close> (a number, not units):
  the quotient of \<open>a * 2^sh\<close> by \<open>b\<close> has more bits than the precision, and a sticky
  bit below it records a remainder.
\<close>

definition with_sticky :: "nat \<Rightarrow> nat \<Rightarrow> nat \<Rightarrow> nat" where
  "with_sticky q x b = 2 * q + (if q * b = x then 0 else 1)"

definition fp_quot_at :: "format \<Rightarrow> bool \<Rightarrow> nat \<Rightarrow> nat \<Rightarrow> nat \<Rightarrow> fp" where
  "fp_quot_at F s a b sh =
     fp_round F s (with_sticky ((a * 2 ^ sh) div b) (a * 2 ^ sh) b) (int (uexp F) - int sh - 1)"

definition fp_round_quot :: "format \<Rightarrow> bool \<Rightarrow> nat \<Rightarrow> nat \<Rightarrow> fp" where
  "fp_round_quot F s a b = fp_quot_at F s a b (prec F + 2 + bit_length b - bit_length a)"

definition sval :: "bool \<Rightarrow> nat \<Rightarrow> int" where
  "sval s n = (if s then - int n else int n)"

fun fp_neg :: "fp \<Rightarrow> fp" where
  "fp_neg NaN = NaN"
| "fp_neg (Infty s) = Infty (\<not> s)"
| "fp_neg (Fin s n) = Fin (\<not> s) n"

fun fp_abs :: "fp \<Rightarrow> fp" where
  "fp_abs NaN = NaN"
| "fp_abs (Infty s) = Infty False"
| "fp_abs (Fin s n) = Fin False n"

text \<open>
  The sum of two finite values from the exact sum \<open>i\<close> of their signed magnitudes: an
  exact zero is negative only when both operands are.
\<close>

definition fp_sum :: "format \<Rightarrow> bool \<Rightarrow> bool \<Rightarrow> int \<Rightarrow> fp" where
  "fp_sum F s t i = (if i = 0 then Fin (s \<and> t) 0 else fp_round F (i < 0) (nat \<bar>i\<bar>) 0)"

fun fp_add :: "format \<Rightarrow> fp \<Rightarrow> fp \<Rightarrow> fp" where
  "fp_add F NaN b = NaN"
| "fp_add F a NaN = NaN"
| "fp_add F (Infty s) (Infty t) = (if s = t then Infty s else NaN)"
| "fp_add F (Infty s) (Fin t n) = Infty s"
| "fp_add F (Fin s m) (Infty t) = Infty t"
| "fp_add F (Fin s m) (Fin t n) = fp_sum F s t (sval s m + sval t n)"

definition fp_sub :: "format \<Rightarrow> fp \<Rightarrow> fp \<Rightarrow> fp" where
  "fp_sub F a b = fp_add F a (fp_neg b)"

fun fp_mul :: "format \<Rightarrow> fp \<Rightarrow> fp \<Rightarrow> fp" where
  "fp_mul F NaN b = NaN"
| "fp_mul F a NaN = NaN"
| "fp_mul F (Infty s) (Infty t) = Infty (s \<noteq> t)"
| "fp_mul F (Infty s) (Fin t n) = (if n = 0 then NaN else Infty (s \<noteq> t))"
| "fp_mul F (Fin s m) (Infty t) = (if m = 0 then NaN else Infty (s \<noteq> t))"
| "fp_mul F (Fin s m) (Fin t n) = fp_round F (s \<noteq> t) (m * n) (- int (uexp F))"

fun fp_div :: "format \<Rightarrow> fp \<Rightarrow> fp \<Rightarrow> fp" where
  "fp_div F NaN b = NaN"
| "fp_div F a NaN = NaN"
| "fp_div F (Infty s) (Infty t) = NaN"
| "fp_div F (Infty s) (Fin t n) = Infty (s \<noteq> t)"
| "fp_div F (Fin s m) (Infty t) = Fin (s \<noteq> t) 0"
| "fp_div F (Fin s m) (Fin t n) =
     (if n = 0 then (if m = 0 then NaN else Infty (s \<noteq> t))
      else fp_round_quot F (s \<noteq> t) m n)"

fun fp_lt :: "fp \<Rightarrow> fp \<Rightarrow> bool" where
  "fp_lt NaN b = False"
| "fp_lt a NaN = False"
| "fp_lt (Infty s) (Infty t) = (s \<and> \<not> t)"
| "fp_lt (Infty s) (Fin t n) = s"
| "fp_lt (Fin s m) (Infty t) = (\<not> t)"
| "fp_lt (Fin s m) (Fin t n) = (sval s m < sval t n)"

fun fp_le :: "fp \<Rightarrow> fp \<Rightarrow> bool" where
  "fp_le NaN b = False"
| "fp_le a NaN = False"
| "fp_le (Infty s) (Infty t) = (s \<or> \<not> t)"
| "fp_le (Infty s) (Fin t n) = s"
| "fp_le (Fin s m) (Infty t) = (\<not> t)"
| "fp_le (Fin s m) (Fin t n) = (sval s m \<le> sval t n)"

definition fp_of_int :: "format \<Rightarrow> int \<Rightarrow> fp" where
  "fp_of_int F i = fp_round F (i < 0) (nat \<bar>i\<bar>) (int (uexp F))"

text \<open>A decimal literal \<open>a / b\<close> of the source, rounded by the compiler.\<close>

definition fp_lit :: "format \<Rightarrow> nat \<Rightarrow> nat \<Rightarrow> fp" where
  "fp_lit F a b = fp_round_quot F False a b"

text \<open>The implicit conversion from \<^verbatim>\<open>double\<close> to \<^verbatim>\<open>float\<close>.\<close>

fun double_to_float :: "fp \<Rightarrow> fp" where
  "double_to_float NaN = NaN"
| "double_to_float (Infty s) = Infty s"
| "double_to_float (Fin s n) = fp_round binary32 s n (int (uexp binary32) - int (uexp binary64))"

text \<open>
  The correctly rounded square root. \<open>nat_sqrt n\<close> is the integer part of the root of \<open>n\<close>;
  the magnitude is first scaled by an even power of two that leaves the root more bits than
  the precision, and a sticky bit records an inexact root.
\<close>

definition sqrt_fix :: "nat \<Rightarrow> nat \<Rightarrow> nat" where
  "sqrt_fix n r = (if (r + 1) * (r + 1) \<le> n then r + 1 else r)"

function nat_sqrt :: "nat \<Rightarrow> nat" where
  "nat_sqrt n =
     (if n = 0 then 0
      else if n < 4 then 1
      else sqrt_fix n (2 * nat_sqrt (drop_bit 2 n)))"
  by pat_completeness auto
termination
  by (relation "measure (\<lambda>n. n)") (auto simp: drop_bit_eq_div)

declare nat_sqrt.simps [simp del]

definition sqrt_shift :: "format \<Rightarrow> nat" where
  "sqrt_shift F = 2 * prec F + 2 + uexp F mod 2"

definition fp_sqrt_at :: "format \<Rightarrow> nat \<Rightarrow> nat \<Rightarrow> fp" where
  "fp_sqrt_at F x r =
     fp_round F False (with_sticky r x r)
       (int (uexp F) - int ((uexp F + sqrt_shift F) div 2) - 1)"

definition fp_sqrt_fin :: "format \<Rightarrow> nat \<Rightarrow> fp" where
  "fp_sqrt_fin F n = fp_sqrt_at F (n * 2 ^ sqrt_shift F) (nat_sqrt (n * 2 ^ sqrt_shift F))"

fun fp_sqrt :: "format \<Rightarrow> fp \<Rightarrow> fp" where
  "fp_sqrt F NaN = NaN"
| "fp_sqrt F (Infty s) = (if s then NaN else Infty False)"
| "fp_sqrt F (Fin s n) =
     (if n = 0 then Fin s 0 else if s then NaN else fp_sqrt_fin F n)"

text \<open>The real number a finite value stands for.\<close>

fun fp_value :: "format \<Rightarrow> fp \<Rightarrow> real option" where
  "fp_value F NaN = None"
| "fp_value F (Infty s) = None"
| "fp_value F (Fin s n) = Some (real_of_int (sval s n) / 2 ^ uexp F)"

fun is_nan :: "fp \<Rightarrow> bool" where
  "is_nan NaN = True"
| "is_nan (Infty s) = False"
| "is_nan (Fin s n) = False"

subsection \<open>The operators of \<^verbatim>\<open>float\<close> and \<^verbatim>\<open>double\<close>\<close>

definition fadd :: "fp \<Rightarrow> fp \<Rightarrow> fp" where "fadd = fp_add binary32"
definition fsub :: "fp \<Rightarrow> fp \<Rightarrow> fp" where "fsub = fp_sub binary32"
definition fmul :: "fp \<Rightarrow> fp \<Rightarrow> fp" where "fmul = fp_mul binary32"
definition fdiv :: "fp \<Rightarrow> fp \<Rightarrow> fp" where "fdiv = fp_div binary32"
definition dadd :: "fp \<Rightarrow> fp \<Rightarrow> fp" where "dadd = fp_add binary64"
definition dsub :: "fp \<Rightarrow> fp \<Rightarrow> fp" where "dsub = fp_sub binary64"
definition dmul :: "fp \<Rightarrow> fp \<Rightarrow> fp" where "dmul = fp_mul binary64"
definition ddiv :: "fp \<Rightarrow> fp \<Rightarrow> fp" where "ddiv = fp_div binary64"

definition int_to_float :: "int \<Rightarrow> fp" where "int_to_float = fp_of_int binary32"
definition int_to_double :: "int \<Rightarrow> fp" where "int_to_double = fp_of_int binary64"

definition fabsf :: "fp \<Rightarrow> fp" where "fabsf = fp_abs"
definition sqrtf :: "fp \<Rightarrow> fp" where "sqrtf = fp_sqrt binary32"

text \<open>The literals: \<open>flit 5 100\<close> is \<^verbatim>\<open>0.05f\<close>, \<open>dlit 4 1\<close> is \<^verbatim>\<open>4.0\<close>.\<close>

definition flit :: "int \<Rightarrow> int \<Rightarrow> fp" where "flit a b = fp_lit binary32 (nat a) (nat b)"
definition dlit :: "int \<Rightarrow> int \<Rightarrow> fp" where "dlit a b = fp_lit binary64 (nat a) (nat b)"

section \<open>The escape-time iteration\<close>

definition MAX_ITER :: int where "MAX_ITER = 1000"

datatype float2 = make_float2 (f2_x: fp) (f2_y: fp)

definition complex_mul :: "float2 \<Rightarrow> float2 \<Rightarrow> float2" where
  "complex_mul a b =
     make_float2 (fsub (fmul (f2_x a) (f2_x b)) (fmul (f2_y a) (f2_y b)))
                 (fadd (fmul (f2_x a) (f2_y b)) (fmul (f2_y a) (f2_x b)))"

definition complex_mag_squared :: "float2 \<Rightarrow> fp" where
  "complex_mag_squared c = fadd (fmul (f2_x c) (f2_x c)) (fmul (f2_y c) (f2_y c))"

datatype variant = Mandelbrot | Julia | BurningShip

text \<open>
  The body of the three \<^verbatim>\<open>while\<close> loops up to the new \<^verbatim>\<open>z\<close>. The loops of
  \<^verbatim>\<open>mandelbrot_kernel\<close> and \<^verbatim>\<open>julia_kernel\<close> are the same text; the loop of
  \<^verbatim>\<open>burning_ship_kernel\<close> first replaces both components of \<^verbatim>\<open>z\<close> by their
  absolute values.
\<close>

definition pre_square :: "variant \<Rightarrow> float2 \<Rightarrow> float2" where
  "pre_square v z =
     (case v of
        BurningShip \<Rightarrow> make_float2 (fabsf (f2_x z)) (fabsf (f2_y z))
      | _ \<Rightarrow> z)"

definition add_c :: "float2 \<Rightarrow> float2 \<Rightarrow> float2" where
  "add_c z c = make_float2 (fadd (f2_x z) (f2_x c)) (fadd (f2_y z) (f2_y c))"

definition loop_body :: "variant \<Rightarrow> float2 \<Rightarrow> float2 \<Rightarrow> float2" where
  "loop_body v c z = add_c (complex_mul (pre_square v z) (pre_square v z)) c"

text \<open>
  \<^verbatim>\<open>while (iter < MAX_ITER && mag_sq < 16.0f) { ...; mag_sq = complex_mag_squared(z); iter++; }\<close>
  on the state \<open>(z, iter, mag_sq)\<close>; the iteration cap is a parameter, \<open>MAX_ITER\<close> in
  the kernels.
\<close>

definition next_state :: "float2 \<Rightarrow> int \<Rightarrow> float2 \<times> int \<times> fp" where
  "next_state z iter = (z, iter + 1, complex_mag_squared z)"

function escape_loop ::
  "variant \<Rightarrow> int \<Rightarrow> float2 \<Rightarrow> float2 \<times> int \<times> fp \<Rightarrow> float2 \<times> int \<times> fp" where
  "escape_loop v max_iter c (z, iter, mag_sq) =
     (if iter < max_iter \<and> fp_lt mag_sq (flit 16 1)
      then escape_loop v max_iter c (next_state (loop_body v c z) iter)
      else (z, iter, mag_sq))"
  by pat_completeness auto
termination
  by (relation "measure (\<lambda>(v, max_iter, c, z, iter, mag_sq). nat (max_iter - iter))")
     (auto simp: next_state_def)

declare escape_loop.simps [simp del]


section \<open>Colouring and the three kernels\<close>

text \<open>
  The source leaves two things to the device: the single-precision functions
  \<^verbatim>\<open>sinf\<close>, \<^verbatim>\<open>expf\<close> and \<^verbatim>\<open>logf\<close> of the CUDA math library, and the result of converting to
  \<^verbatim>\<open>unsigned char\<close> a value whose integral part is not in \<open>0..255\<close> or that is a NaN,
  which the language does not define. They are parameters of the model.
\<close>

record device =
  sinf :: "fp \<Rightarrow> fp"
  expf :: "fp \<Rightarrow> fp"
  logf :: "fp \<Rightarrow> fp"
  uchar_undef :: "fp \<Rightarrow> 8 word"

text \<open>\<^verbatim>\<open>struct Color { unsigned char r, g, b; }\<close>\<close>

datatype Color = Color (col_r: "8 word") (col_g: "8 word") (col_b: "8 word")

text \<open>The cast \<^verbatim>\<open>(unsigned char)\<close> of a \<^verbatim>\<open>float\<close>: truncation toward zero where defined.\<close>

fun float_to_uchar :: "device \<Rightarrow> fp \<Rightarrow> 8 word" where
  "float_to_uchar D NaN = uchar_undef D NaN"
| "float_to_uchar D (Infty s) = uchar_undef D (Infty s)"
| "float_to_uchar D (Fin s n) =
     (if s then (if n < 2 ^ 149 then 0 else uchar_undef D (Fin s n))
      else (if n < 256 * 2 ^ 149 then word_of_nat (drop_bit 149 n)
            else uchar_undef D (Fin s n)))"

text \<open>\<^verbatim>\<open>float t = (iter + smooth_iter) * 0.05f\<close>\<close>

definition color_t :: "int \<Rightarrow> fp \<Rightarrow> fp" where
  "color_t iter smooth_iter = fmul (fadd (int_to_float iter) smooth_iter) (flit 5 100)"

text \<open>\<^verbatim>\<open>0.5f + 0.5f * sinf(t)\<close>\<close>

definition wave :: "device \<Rightarrow> fp \<Rightarrow> fp" where
  "wave D t = fadd (flit 5 10) (fmul (flit 5 10) (sinf D t))"

text \<open>\<^verbatim>\<open>float brightness = 1.0f - expf(-0.1f * iter)\<close>\<close>

definition brightness :: "device \<Rightarrow> int \<Rightarrow> fp" where
  "brightness D iter = fsub (flit 1 1) (expf D (fmul (fp_neg (flit 1 10)) (int_to_float iter)))"

text \<open>\<^verbatim>\<open>(unsigned char)(255 * r * brightness)\<close>\<close>

definition channel :: "device \<Rightarrow> fp \<Rightarrow> fp \<Rightarrow> 8 word" where
  "channel D w br = float_to_uchar D (fmul (fmul (int_to_float 255) w) br)"

definition shade :: "device \<Rightarrow> fp \<Rightarrow> fp \<Rightarrow> Color" where
  "shade D t br =
     Color (channel D (wave D t) br)
           (channel D (wave D (fadd t (flit 2094 1000))) br)
           (channel D (wave D (fadd t (flit 4188 1000))) br)"

definition get_color :: "device \<Rightarrow> int \<Rightarrow> int \<Rightarrow> fp \<Rightarrow> Color" where
  "get_color D max_iter iter smooth_iter =
     (if iter = max_iter then Color 0 0 0
      else shade D (color_t iter smooth_iter) (brightness D iter))"

text \<open>
  \<^verbatim>\<open>float smooth_iter = 0.0f;\<close>
  \<^verbatim>\<open>if (iter < MAX_ITER) smooth_iter = logf(logf(sqrtf(mag_sq))) / logf(2.0f);\<close>
\<close>

definition smooth_iter_of :: "device \<Rightarrow> int \<Rightarrow> int \<Rightarrow> fp \<Rightarrow> fp" where
  "smooth_iter_of D max_iter iter mag_sq =
     (if iter < max_iter
      then fdiv (logf D (logf D (sqrtf mag_sq))) (logf D (flit 2 1))
      else flit 0 1)"

fun color_of :: "device \<Rightarrow> int \<Rightarrow> float2 \<times> int \<times> fp \<Rightarrow> Color" where
  "color_of D max_iter (z, iter, mag_sq) =
     get_color D max_iter iter (smooth_iter_of D max_iter iter mag_sq)"

text \<open>
  The mapping of a pixel to the plane, in \<^verbatim>\<open>double\<close>:
  \<^verbatim>\<open>scale = 4.0 / (zoom * min(width, height))\<close> and \<^verbatim>\<open>(x - width / 2.0) * scale\<close>.
\<close>

definition plane_scale :: "fp \<Rightarrow> int \<Rightarrow> int \<Rightarrow> fp" where
  "plane_scale zoom width height = ddiv (dlit 4 1) (dmul zoom (int_to_double (min width height)))"

definition plane_offset :: "int \<Rightarrow> int \<Rightarrow> fp \<Rightarrow> fp" where
  "plane_offset x width scale =
     dmul (dsub (int_to_double x) (ddiv (int_to_double width) (dlit 2 1))) scale"

text \<open>\<open>(real, imag)\<close> of each kernel, before the narrowing by \<^verbatim>\<open>make_float2\<close>.\<close>

definition mandelbrot_plane :: "int \<Rightarrow> int \<Rightarrow> fp \<Rightarrow> fp \<Rightarrow> fp \<Rightarrow> int \<Rightarrow> int \<Rightarrow> fp \<times> fp" where
  "mandelbrot_plane width height center_x center_y zoom x y =
     (dadd center_x (plane_offset x width (plane_scale zoom width height)),
      dadd center_y (plane_offset y height (plane_scale zoom width height)))"

definition julia_plane :: "int \<Rightarrow> int \<Rightarrow> fp \<Rightarrow> int \<Rightarrow> int \<Rightarrow> fp \<times> fp" where
  "julia_plane width height zoom x y =
     (plane_offset x width (plane_scale zoom width height),
      plane_offset y height (plane_scale zoom width height))"

definition burning_ship_plane :: "int \<Rightarrow> int \<Rightarrow> fp \<Rightarrow> fp \<Rightarrow> fp \<Rightarrow> int \<Rightarrow> int \<Rightarrow> fp \<times> fp" where
  "burning_ship_plane width height center_x center_y zoom x y =
     (dadd center_x (plane_offset x width (plane_scale zoom width height)),
      dsub center_y (plane_offset y height (plane_scale zoom width height)))"

text \<open>\<^verbatim>\<open>make_float2(real, imag)\<close> on two \<^verbatim>\<open>double\<close>s converts each to \<^verbatim>\<open>float\<close>.\<close>

fun narrow :: "fp \<times> fp \<Rightarrow> float2" where
  "narrow (re, im) = make_float2 (double_to_float re) (double_to_float im)"

definition origin :: float2 where
  "origin = make_float2 (flit 0 1) (flit 0 1)"

text \<open>The three kernels from the pixel \<open>(x, y)\<close> to its colour.\<close>

definition mandelbrot_pixel ::
  "device \<Rightarrow> int \<Rightarrow> int \<Rightarrow> fp \<Rightarrow> fp \<Rightarrow> fp \<Rightarrow> int \<Rightarrow> int \<Rightarrow> Color" where
  "mandelbrot_pixel D width height center_x center_y zoom x y =
     color_of D MAX_ITER
       (escape_loop Mandelbrot MAX_ITER
          (narrow (mandelbrot_plane width height center_x center_y zoom x y))
          (origin, 0, flit 0 1))"

definition julia_pixel ::
  "device \<Rightarrow> int \<Rightarrow> int \<Rightarrow> fp \<Rightarrow> fp \<Rightarrow> fp \<Rightarrow> int \<Rightarrow> int \<Rightarrow> Color" where
  "julia_pixel D width height julia_real julia_imag zoom x y =
     color_of D MAX_ITER
       (escape_loop Julia MAX_ITER
          (narrow (julia_real, julia_imag))
          (narrow (julia_plane width height zoom x y), 0, flit 0 1))"

definition burning_ship_pixel ::
  "device \<Rightarrow> int \<Rightarrow> int \<Rightarrow> fp \<Rightarrow> fp \<Rightarrow> fp \<Rightarrow> int \<Rightarrow> int \<Rightarrow> Color" where
  "burning_ship_pixel D width height center_x center_y zoom x y =
     color_of D MAX_ITER
       (escape_loop BurningShip MAX_ITER
          (narrow (burning_ship_plane width height center_x center_y zoom x y))
          (origin, 0, flit 0 1))"

section \<open>The grid of threads\<close>

text \<open>
  A thread is its block and thread index with the block dimensions;
  \<^verbatim>\<open>x = blockIdx.x * blockDim.x + threadIdx.x\<close>, and \<^verbatim>\<open>y\<close> alike.
\<close>

record thread =
  blockIdx_x :: nat
  blockIdx_y :: nat
  blockDim_x :: nat
  blockDim_y :: nat
  threadIdx_x :: nat
  threadIdx_y :: nat

definition pixel_x :: "thread \<Rightarrow> int" where
  "pixel_x t = int (blockIdx_x t * blockDim_x t + threadIdx_x t)"

definition pixel_y :: "thread \<Rightarrow> int" where
  "pixel_y t = int (blockIdx_y t * blockDim_y t + threadIdx_y t)"

text \<open>
  One thread of a kernel: \<^verbatim>\<open>if (x >= width || y >= height) return;\<close> and at the end
  \<^verbatim>\<open>image[y * width + x] = color\<close>. The kernel is given as its colour function.
\<close>

definition run_thread ::
  "(int \<Rightarrow> int \<Rightarrow> Color) \<Rightarrow> int \<Rightarrow> int \<Rightarrow> thread \<Rightarrow> Color list \<Rightarrow> Color list" where
  "run_thread pixel width height t img =
     (if pixel_x t \<ge> width \<or> pixel_y t \<ge> height then img
      else img[nat (pixel_y t * width + pixel_x t) := pixel (pixel_x t) (pixel_y t)])"

definition mandelbrot_kernel ::
  "device \<Rightarrow> int \<Rightarrow> int \<Rightarrow> fp \<Rightarrow> fp \<Rightarrow> fp \<Rightarrow> thread \<Rightarrow> Color list \<Rightarrow> Color list" where
  "mandelbrot_kernel D width height center_x center_y zoom =
     run_thread (mandelbrot_pixel D width height center_x center_y zoom) width height"

definition julia_kernel ::
  "device \<Rightarrow> int \<Rightarrow> int \<Rightarrow> fp \<Rightarrow> fp \<Rightarrow> fp \<Rightarrow> thread \<Rightarrow> Color list \<Rightarrow> Color list" where
  "julia_kernel D width height julia_real julia_imag zoom =
     run_thread (julia_pixel D width height julia_real julia_imag zoom) width height"

definition burning_ship_kernel ::
  "device \<Rightarrow> int \<Rightarrow> int \<Rightarrow> fp \<Rightarrow> fp \<Rightarrow> fp \<Rightarrow> thread \<Rightarrow> Color list \<Rightarrow> Color list" where
  "burning_ship_kernel D width height center_x center_y zoom =
     run_thread (burning_ship_pixel D width height center_x center_y zoom) width height"

text \<open>
  A launch \<^verbatim>\<open>kernel<<<gridSize, blockSize>>>(...)\<close> runs every thread of the grid once, in an
  order the source does not fix: the order is the list \<open>schedule\<close>, and a schedule of the
  launch is any list that holds exactly the threads of the grid.
\<close>

definition launch :: "(thread \<Rightarrow> Color list \<Rightarrow> Color list) \<Rightarrow> thread list \<Rightarrow> Color list \<Rightarrow> Color list" where
  "launch k schedule img = foldl (\<lambda>im t. k t im) img schedule"

definition grid_threads :: "nat \<times> nat \<Rightarrow> nat \<times> nat \<Rightarrow> thread set" where
  "grid_threads gridSize blockSize =
     {t. blockIdx_x t < fst gridSize \<and> blockIdx_y t < snd gridSize \<and>
         blockDim_x t = fst blockSize \<and> blockDim_y t = snd blockSize \<and>
         threadIdx_x t < fst blockSize \<and> threadIdx_y t < snd blockSize}"

definition schedule_of :: "nat \<times> nat \<Rightarrow> nat \<times> nat \<Rightarrow> thread list \<Rightarrow> bool" where
  "schedule_of gridSize blockSize schedule \<longleftrightarrow>
     set schedule = grid_threads gridSize blockSize"

text \<open>
  \<^verbatim>\<open>dim3 blockSize(16, 16);\<close>
  \<^verbatim>\<open>dim3 gridSize((WIDTH + blockSize.x - 1) / blockSize.x, (HEIGHT + blockSize.y - 1) / blockSize.y);\<close>
\<close>

definition WIDTH :: nat where "WIDTH = 1920"
definition HEIGHT :: nat where "HEIGHT = 1080"

definition blockSize :: "nat \<times> nat" where
  "blockSize = (16, 16)"

definition gridSize :: "nat \<times> nat" where
  "gridSize = ((WIDTH + fst blockSize - 1) div fst blockSize,
               (HEIGHT + snd blockSize - 1) div snd blockSize)"

text \<open>
  A scene is one kernel with its three \<^verbatim>\<open>double\<close> arguments: centre and zoom for the
  Mandelbrot and Burning Ship kernels, the constant and zoom for the Julia kernel.
\<close>

datatype scene = MandelbrotScene fp fp fp | JuliaScene fp fp fp | BurningShipScene fp fp fp

fun scene_pixel :: "device \<Rightarrow> int \<Rightarrow> int \<Rightarrow> scene \<Rightarrow> int \<Rightarrow> int \<Rightarrow> Color" where
  "scene_pixel D w h (MandelbrotScene cx cy zoom) = mandelbrot_pixel D w h cx cy zoom"
| "scene_pixel D w h (JuliaScene jr ji zoom) = julia_pixel D w h jr ji zoom"
| "scene_pixel D w h (BurningShipScene cx cy zoom) = burning_ship_pixel D w h cx cy zoom"

fun scene_kernel :: "device \<Rightarrow> int \<Rightarrow> int \<Rightarrow> scene \<Rightarrow> thread \<Rightarrow> Color list \<Rightarrow> Color list" where
  "scene_kernel D w h (MandelbrotScene cx cy zoom) = mandelbrot_kernel D w h cx cy zoom"
| "scene_kernel D w h (JuliaScene jr ji zoom) = julia_kernel D w h jr ji zoom"
| "scene_kernel D w h (BurningShipScene cx cy zoom) = burning_ship_kernel D w h cx cy zoom"

text \<open>The image a launch has to leave: row by row, the colour of each pixel.\<close>

definition pixel_at :: "(int \<Rightarrow> int \<Rightarrow> Color) \<Rightarrow> nat \<Rightarrow> nat \<Rightarrow> Color" where
  "pixel_at pixel width i = pixel (int (i mod width)) (int (i div width))"

definition rendered :: "(int \<Rightarrow> int \<Rightarrow> Color) \<Rightarrow> nat \<Rightarrow> nat \<Rightarrow> Color list" where
  "rendered pixel width height = map (pixel_at pixel width) [0..<width * height]"

text \<open>The element a thread stores to, when it stores.\<close>

definition writes :: "nat \<Rightarrow> nat \<Rightarrow> thread \<Rightarrow> nat \<Rightarrow> bool" where
  "writes W H t i \<longleftrightarrow>
     pixel_x t < int W \<and> pixel_y t < int H \<and> i = nat (pixel_y t * int W + pixel_x t)"


section \<open>The image writer and the driver\<close>

type_synonym byte = "8 word"

definition ascii :: "string \<Rightarrow> byte list" where
  "ascii s = map of_char s"

definition newline :: char where
  "newline = CHR 0x0A"

text \<open>The conversion \<^verbatim>\<open>%d\<close> of \<^verbatim>\<open>printf\<close>.\<close>

definition digit_char :: "nat \<Rightarrow> char" where
  "digit_char d = char_of (48 + d)"

function decimal :: "nat \<Rightarrow> string" where
  "decimal n = (if n < 10 then [digit_char n] else decimal (n div 10) @ [digit_char (n mod 10)])"
  by pat_completeness auto
termination
  by (relation "measure (\<lambda>n. n)") auto

declare decimal.simps [simp del]

definition print_int :: "int \<Rightarrow> string" where
  "print_int i = (if i < 0 then CHR ''-'' # decimal (nat (- i)) else decimal (nat i))"

text \<open>\<^verbatim>\<open>fprintf(fp, "P6\n%d %d\n255\n", width, height)\<close>\<close>

definition ppm_header :: "int \<Rightarrow> int \<Rightarrow> string" where
  "ppm_header width height =
     ''P6'' @ [newline] @ print_int width @ '' '' @ print_int height @ [newline] @
     ''255'' @ [newline]"

text \<open>
  \<^verbatim>\<open>fwrite(image, sizeof(Color), width * height, fp)\<close>: the three bytes of each of the first
  \<^verbatim>\<open>width * height\<close> elements, in the order of the fields of the struct.
\<close>

fun color_bytes :: "Color \<Rightarrow> byte list" where
  "color_bytes (Color r g b) = [r, g, b]"

definition fwrite_colors :: "Color list \<Rightarrow> int \<Rightarrow> byte list" where
  "fwrite_colors img count = concat (map color_bytes (take (nat count) img))"

text \<open>
  The world of the host program: the files by name, the names \<^verbatim>\<open>fopen(name, "wb")\<close> can
  open, and what was printed to the standard output.
\<close>

record world =
  files :: "string \<rightharpoonup> byte list"
  writable :: "string set"
  printed :: string

definition printf :: "string \<Rightarrow> world \<Rightarrow> world" where
  "printf s w = w\<lparr>printed := printed w @ s\<rparr>"

text \<open>What a successful \<^verbatim>\<open>save_ppm\<close> leaves in the file: header, then pixels.\<close>

definition ppm_bytes :: "Color list \<Rightarrow> int \<Rightarrow> int \<Rightarrow> byte list" where
  "ppm_bytes img width height =
     ascii (ppm_header width height) @ fwrite_colors img (width * height)"

definition save_ppm :: "string \<Rightarrow> Color list \<Rightarrow> int \<Rightarrow> int \<Rightarrow> world \<Rightarrow> world" where
  "save_ppm filename img width height w =
     (if filename \<notin> writable w
      then printf (''Error: Could not open file '' @ filename @ [newline]) w
      else printf (''Saved fractal to '' @ filename @ [newline])
             (w\<lparr>files := (files w)(filename \<mapsto> ppm_bytes img width height)\<rparr>))"

text \<open>
  One scene of \<^verbatim>\<open>main\<close>: the announcement, the launch on the device image, the copy to the
  host and the call of \<^verbatim>\<open>save_ppm\<close>. The state is the device image and the world.
\<close>

record job =
  title :: string
  scene_of :: scene
  filename_of :: string

definition run_job :: "device \<Rightarrow> job \<times> thread list \<Rightarrow> Color list \<times> world \<Rightarrow> Color list \<times> world" where
  "run_job D js st =
     (launch (scene_kernel D (int WIDTH) (int HEIGHT) (scene_of (fst js))) (snd js) (fst st),
      save_ppm (filename_of (fst js))
        (launch (scene_kernel D (int WIDTH) (int HEIGHT) (scene_of (fst js))) (snd js) (fst st))
        (int WIDTH) (int HEIGHT)
        (printf (title (fst js)) (snd st)))"

definition jobs :: "job list" where
  "jobs =
    [\<lparr>title = [newline] @ ''1. Generating Mandelbrot set...'' @ [newline],
      scene_of = MandelbrotScene (fp_neg (dlit 5 10)) (dlit 0 1) (dlit 1 1),
      filename_of = ''mandelbrot_classic.ppm''\<rparr>,
     \<lparr>title = ''2. Generating zoomed Mandelbrot set...'' @ [newline],
      scene_of = MandelbrotScene (fp_neg (dlit 7 10)) (dlit 0 1) (dlit 100 1),
      filename_of = ''mandelbrot_zoom.ppm''\<rparr>,
     \<lparr>title = ''3. Generating Julia set (c = -0.7 + 0.27015i)...'' @ [newline],
      scene_of = JuliaScene (fp_neg (dlit 7 10)) (dlit 27015 100000) (dlit 1 1),
      filename_of = ''julia_1.ppm''\<rparr>,
     \<lparr>title = ''4. Generating Julia set (c = -0.4 + 0.6i)...'' @ [newline],
      scene_of = JuliaScene (fp_neg (dlit 4 10)) (dlit 6 10) (dlit 1 1),
      filename_of = ''julia_2.ppm''\<rparr>,
     \<lparr>title = ''5. Generating Julia set (c = 0.285 + 0.01i)...'' @ [newline],
      scene_of = JuliaScene (dlit 285 1000) (dlit 1 100) (dlit 1 1),
      filename_of = ''julia_3.ppm''\<rparr>,
     \<lparr>title = ''6. Generating Burning Ship fractal...'' @ [newline],
      scene_of = BurningShipScene (fp_neg (dlit 18 10)) (fp_neg (dlit 8 100)) (dlit 1 1),
      filename_of = ''burning_ship.ppm''\<rparr>,
     \<lparr>title = ''7. Generating deep zoom Mandelbrot...'' @ [newline],
      scene_of = MandelbrotScene (fp_neg (dlit 7269 10000)) (dlit 1889 10000) (dlit 10000 1),
      filename_of = ''mandelbrot_deep_zoom.ppm''\<rparr>]"

text \<open>
  \<^verbatim>\<open>main\<close>, given the schedule of each of the seven launches and the first contents of
  the device image; it returns \<^verbatim>\<open>0\<close> with the world it leaves.
\<close>

text \<open>What one scene prints: its title, then the report of \<^verbatim>\<open>save_ppm\<close>.\<close>

definition report :: "world \<Rightarrow> job \<times> thread list \<Rightarrow> string" where
  "report w js =
     title (fst js) @
     (if filename_of (fst js) \<notin> writable w
      then ''Error: Could not open file '' @ filename_of (fst js) @ [newline]
      else ''Saved fractal to '' @ filename_of (fst js) @ [newline])"

definition banner :: string where
  "banner =
     ''Generating beautiful fractals with CUDA...'' @ [newline] @
     ''Image size: '' @ print_int (int WIDTH) @ ''x'' @ print_int (int HEIGHT) @
     '', Max iterations: '' @ print_int MAX_ITER @ [newline]"

definition finale :: string where
  "finale = [newline] @ ''All fractals generated successfully!'' @ [newline]"

definition main :: "device \<Rightarrow> thread list list \<Rightarrow> Color list \<Rightarrow> world \<Rightarrow> int \<times> world" where
  "main D schedules d_image w =
     (0, printf finale
           (snd (foldl (\<lambda>st js. run_job D js st) (d_image, printf banner w)
                   (zip jobs schedules))))"

text \<open>
  Reading a container back, as the specification describes it: the two bytes \<^verbatim>\<open>P6\<close>, then
  width, height and maximum channel value in decimal, each after one white-space byte,
  and after one more white-space byte the payload.
\<close>

definition is_digit :: "byte \<Rightarrow> bool" where
  "is_digit b \<longleftrightarrow> 48 \<le> b \<and> b \<le> 57"

definition is_space :: "byte \<Rightarrow> bool" where
  "is_space b \<longleftrightarrow> b = 32 \<or> b = 9 \<or> b = 10 \<or> b = 13"

definition digits_value :: "byte list \<Rightarrow> nat" where
  "digits_value ds = foldl (\<lambda>a d. 10 * a + (unat d - 48)) 0 ds"

definition parse_nat :: "byte list \<Rightarrow> (nat \<times> byte list) option" where
  "parse_nat bs =
     (if takeWhile is_digit bs = [] then None
      else Some (digits_value (takeWhile is_digit bs), dropWhile is_digit bs))"

fun expect_space :: "byte list \<Rightarrow> byte list option" where
  "expect_space [] = None"
| "expect_space (b # bs) = (if is_space b then Some bs else None)"

definition spec_parse_fields :: "byte list \<Rightarrow> (nat \<times> nat \<times> nat \<times> byte list) option" where
  "spec_parse_fields bs =
     Option.bind (expect_space bs) (\<lambda>r1.
     Option.bind (parse_nat r1) (\<lambda>(w, r2).
     Option.bind (expect_space r2) (\<lambda>r3.
     Option.bind (parse_nat r3) (\<lambda>(h, r4).
     Option.bind (expect_space r4) (\<lambda>r5.
     Option.bind (parse_nat r5) (\<lambda>(m, r6).
     Option.bind (expect_space r6) (\<lambda>payload.
     Some (w, h, m, payload))))))))"

fun spec_parse_ppm :: "byte list \<Rightarrow> (nat \<times> nat \<times> nat \<times> byte list) option" where
  "spec_parse_ppm (p # six # bs) =
     (if p = 80 \<and> six = 54 then spec_parse_fields bs else None)"
| "spec_parse_ppm bs = None"

section \<open>Concrete instances\<close>

text \<open>A device and two threads of a two-by-one grid, for the instances of the theorems.\<close>

definition unit_device :: device where
  "unit_device = \<lparr>sinf = (\<lambda>x. x), expf = (\<lambda>x. x), logf = (\<lambda>x. x), uchar_undef = (\<lambda>x. 0)\<rparr>"



text \<open>One schedule of a launch: the threads of the grid block by block.\<close>

definition grid_schedule :: "nat \<times> nat \<Rightarrow> nat \<times> nat \<Rightarrow> thread list" where
  "grid_schedule g b =
     [\<lparr>blockIdx_x = i, blockIdx_y = j, blockDim_x = fst b, blockDim_y = snd b,
       threadIdx_x = k, threadIdx_y = l\<rparr>.
      i \<leftarrow> [0..<fst g], j \<leftarrow> [0..<snd g], k \<leftarrow> [0..<fst b], l \<leftarrow> [0..<snd b]]"

definition blank_image :: "Color list" where
  "blank_image = replicate (WIDTH * HEIGHT) (Color 0 0 0)"

definition world_without :: "string \<Rightarrow> world" where
  "world_without name = \<lparr>files = Map.empty, writable = UNIV - {name}, printed = []\<rparr>"




section \<open>The formulas of the specification\<close>

text \<open>
  The view of the specification, and the plane mapper in its words:
  \<open>scale = 4.0 / (zoom * min(width, height))\<close>, \<open>re = center_x + (x - width/2) * scale\<close>,
  \<open>im = center_y \<plusminus> (y - height/2) * scale\<close> with minus for the Burning Ship, all in
  \<^verbatim>\<open>double\<close>.
\<close>

datatype View = View (view_center_x: fp) (view_center_y: fp) (view_zoom: fp)

definition spec_scale :: "View \<Rightarrow> int \<Rightarrow> int \<Rightarrow> fp" where
  "spec_scale V width height =
     ddiv (dlit 4 1) (dmul (view_zoom V) (int_to_double (min width height)))"

definition spec_shift :: "int \<Rightarrow> int \<Rightarrow> fp \<Rightarrow> fp" where
  "spec_shift x width scale =
     dmul (dsub (int_to_double x) (ddiv (int_to_double width) (dlit 2 1))) scale"

fun spec_plane_mapper :: "variant \<Rightarrow> View \<Rightarrow> int \<Rightarrow> int \<Rightarrow> int \<Rightarrow> int \<Rightarrow> fp \<times> fp" where
  "spec_plane_mapper BurningShip V width height x y =
     (dadd (view_center_x V) (spec_shift x width (spec_scale V width height)),
      dsub (view_center_y V) (spec_shift y height (spec_scale V width height)))"
| "spec_plane_mapper v V width height x y =
     (dadd (view_center_x V) (spec_shift x width (spec_scale V width height)),
      dadd (view_center_y V) (spec_shift y height (spec_scale V width height)))"

text \<open>
  The plane mapper of the source for a view: the Mandelbrot and Burning Ship kernels take
  centre and zoom; the Julia kernel takes the zoom only.
\<close>

fun kernel_plane :: "variant \<Rightarrow> View \<Rightarrow> int \<Rightarrow> int \<Rightarrow> int \<Rightarrow> int \<Rightarrow> fp \<times> fp" where
  "kernel_plane Mandelbrot V width height x y =
     mandelbrot_plane width height (view_center_x V) (view_center_y V) (view_zoom V) x y"
| "kernel_plane Julia V width height x y = julia_plane width height (view_zoom V) x y"
| "kernel_plane BurningShip V width height x y =
     burning_ship_plane width height (view_center_x V) (view_center_y V) (view_zoom V) x y"

text \<open>
  The smooth colour mapper in the words of the specification, with the phase offsets the
  source has: none, \<^verbatim>\<open>2.094f\<close> and \<^verbatim>\<open>4.188f\<close>.
\<close>

definition spec_smooth :: "device \<Rightarrow> fp \<Rightarrow> fp" where
  "spec_smooth D mag_sq = fdiv (logf D (logf D (sqrtf mag_sq))) (logf D (flit 2 1))"

definition spec_intensity :: "device \<Rightarrow> fp \<Rightarrow> fp" where
  "spec_intensity D t = fadd (flit 5 10) (fmul (flit 5 10) (sinf D t))"

definition spec_attenuation :: "device \<Rightarrow> int \<Rightarrow> fp" where
  "spec_attenuation D iter =
     fsub (flit 1 1) (expf D (fmul (fp_neg (flit 1 10)) (int_to_float iter)))"

definition spec_byte :: "device \<Rightarrow> fp \<Rightarrow> fp \<Rightarrow> 8 word" where
  "spec_byte D intensity attenuation =
     float_to_uchar D (fmul (fmul (int_to_float 255) intensity) attenuation)"

definition spec_rgb :: "device \<Rightarrow> fp \<Rightarrow> fp \<Rightarrow> Color" where
  "spec_rgb D t attenuation =
     Color (spec_byte D (spec_intensity D t) attenuation)
           (spec_byte D (spec_intensity D (fadd t (flit 2094 1000))) attenuation)
           (spec_byte D (spec_intensity D (fadd t (flit 4188 1000))) attenuation)"

definition spec_color :: "device \<Rightarrow> int \<Rightarrow> int \<Rightarrow> fp \<Rightarrow> Color" where
  "spec_color D max_iter iter mag_sq =
     (if iter = max_iter then Color 0 0 0
      else spec_rgb D (fmul (fadd (int_to_float iter) (spec_smooth D mag_sq)) (flit 5 100))
             (spec_attenuation D iter))"

section \<open>Properties of the rounding\<close>

lemma div_pow2_less: "n < 2 ^ j \<Longrightarrow> c \<le> j \<Longrightarrow> (n::nat) div 2 ^ c < 2 ^ (j - c)"
proof -
  assume a: "n < 2 ^ j" "c \<le> j"
  have "(2::nat) ^ j = 2 ^ (j - c) * 2 ^ c" using a(2) by (simp flip: power_add)
  with a(1) show ?thesis by (simp add: less_mult_imp_div_less)
qed

lemma pow2_le_imp_less: "(2::nat) ^ c \<le> n \<Longrightarrow> n < 2 ^ j \<Longrightarrow> c < j"
  by (metis le_less_trans power_strict_increasing_iff numeral_One numeral_less_iff semiring_norm(76))

lemma bit_length_upper: "n < 2 ^ j \<Longrightarrow> bit_length n \<le> j"
proof (induction n arbitrary: j rule: bit_length.induct)
  case (1 n)
  show ?case
  proof (cases "2 ^ 256 \<le> n")
    case True
    then have cj: "256 < j" using "1.prems" pow2_le_imp_less by blast
    have "n div 2 ^ 256 < 2 ^ (j - 256)" using "1.prems" cj by (intro div_pow2_less) auto
    then have "bit_length (drop_bit 256 n) \<le> j - 256"
      using "1.IH"(1)[OF True] by (simp add: drop_bit_eq_div)
    then show ?thesis using True cj by (subst bit_length.simps) simp
  next
    case big: False
    show ?thesis
    proof (cases "2 ^ 16 \<le> n")
      case True
      then have cj: "16 < j" using "1.prems" pow2_le_imp_less by blast
      have "n div 2 ^ 16 < 2 ^ (j - 16)" using "1.prems" cj by (intro div_pow2_less) auto
      then have "bit_length (drop_bit 16 n) \<le> j - 16"
        using "1.IH"(2)[OF big True] by (simp add: drop_bit_eq_div)
      then show ?thesis using big True cj by (subst bit_length.simps) simp
    next
      case mid: False
      show ?thesis
      proof (cases "n = 0")
        case True
        then show ?thesis by (subst bit_length.simps) simp
      next
        case False
        then have "2 ^ 0 \<le> n" by simp
        then have cj: "0 < j" using "1.prems" pow2_le_imp_less by blast
        have "n div 2 ^ 1 < 2 ^ (j - 1)" using "1.prems" cj by (intro div_pow2_less) auto
        then have "bit_length (drop_bit 1 n) \<le> j - 1"
          using "1.IH"(3)[OF big mid False] by (simp add: drop_bit_eq_div)
        then show ?thesis using big mid False cj by (subst bit_length.simps) simp
      qed
    qed
  qed
qed

lemma bit_length_lower: "0 < n \<Longrightarrow> 2 ^ bit_length n \<le> 2 * n"
proof (induction n rule: bit_length.induct)
  case (1 n)
  have step: "2 ^ (c + bit_length (n div 2 ^ c)) \<le> 2 * n"
    if "2 ^ c \<le> n" and "2 ^ bit_length (n div 2 ^ c) \<le> 2 * (n div 2 ^ c)" for c
  proof -
    have "(2::nat) ^ (c + bit_length (n div 2 ^ c)) = 2 ^ c * 2 ^ bit_length (n div 2 ^ c)"
      by (simp add: power_add)
    also have "\<dots> \<le> 2 ^ c * (2 * (n div 2 ^ c))" using that(2) by simp
    also have "\<dots> = 2 * (2 ^ c * (n div 2 ^ c))" by simp
    also have "\<dots> \<le> 2 * n" by simp
    finally show ?thesis .
  qed
  show ?case
  proof (cases "2 ^ 256 \<le> n")
    case True
    then have "0 < n div 2 ^ 256" by (simp add: div_greater_zero_iff)
    then have "2 ^ bit_length (n div 2 ^ 256) \<le> 2 * (n div 2 ^ 256)"
      using "1.IH"(1)[OF True] by (simp add: drop_bit_eq_div)
    from step[OF True this] show ?thesis using True
      by (subst bit_length.simps) (simp add: drop_bit_eq_div)
  next
    case big: False
    show ?thesis
    proof (cases "2 ^ 16 \<le> n")
      case True
      then have "0 < n div 2 ^ 16" by (simp add: div_greater_zero_iff)
      then have "2 ^ bit_length (n div 2 ^ 16) \<le> 2 * (n div 2 ^ 16)"
        using "1.IH"(2)[OF big True] by (simp add: drop_bit_eq_div)
      from step[OF True this] show ?thesis using big True
        by (subst bit_length.simps) (simp add: drop_bit_eq_div)
    next
      case mid: False
      show ?thesis
      proof (cases "n = 1")
        case True
        then show ?thesis by (subst bit_length.simps, simp, subst bit_length.simps, simp)
      next
        case False
        with "1.prems" have two: "2 ^ 1 \<le> n" by simp
        then have "0 < n div 2 ^ 1" by (simp add: div_greater_zero_iff)
        then have "2 ^ bit_length (n div 2 ^ 1) \<le> 2 * (n div 2 ^ 1)"
          using "1.IH"(3)[OF big mid] "1.prems" by (simp add: drop_bit_eq_div)
        from step[OF two this] show ?thesis using big mid "1.prems"
          by (subst bit_length.simps) (simp add: drop_bit_eq_div)
      qed
    qed
  qed
qed

lemma round_even_alt:
  "round_even m k =
     (if 2 ^ k < 2 * (m mod 2 ^ k) \<or> (2 * (m mod 2 ^ k) = 2 ^ k \<and> odd (m div 2 ^ k))
      then m div 2 ^ k + 1 else m div 2 ^ k)"
  by (simp add: round_even_def round_pick_def drop_bit_eq_div push_bit_eq_mult
        minus_div_mult_eq_mod)

lemma round_even_ge: "m div 2 ^ k \<le> round_even m k"
  by (simp add: round_even_alt)

lemma round_even_exact: "2 ^ k dvd m \<Longrightarrow> round_even m k = m div 2 ^ k"
  by (simp add: round_even_alt mod_eq_0_iff_dvd)

lemma round_even_le:
  assumes "m \<le> 2 ^ J" and "k \<le> J"
  shows "round_even m k \<le> 2 ^ (J - k)"
proof -
  have pw: "(2::nat) ^ J = 2 ^ (J - k) * 2 ^ k" using assms(2) by (simp flip: power_add)
  have q: "m div 2 ^ k \<le> 2 ^ (J - k)"
    using div_le_mono[OF assms(1), of "2 ^ k"] pw by simp
  show ?thesis
  proof (cases "m div 2 ^ k = 2 ^ (J - k)")
    case True
    have "2 ^ (J - k) * 2 ^ k \<le> m"
      using True by (metis div_times_less_eq_dividend)
    with pw assms(1) have "m = 2 ^ J" by simp
    then have "2 ^ k dvd m" using assms(2) by (simp add: le_imp_power_dvd)
    then show ?thesis using True by (simp add: round_even_exact)
  next
    case False
    with q have "m div 2 ^ k + 1 \<le> 2 ^ (J - k)" by simp
    then show ?thesis by (simp add: round_even_alt)
  qed
qed

lemma fp_round_cases: "fp_round F s m e = Infty s \<or> (\<exists>n. fp_round F s m e = Fin s n)"
  by (simp add: fp_round_def fp_round_at_def fp_pack_def)

lemma dropped_le:
  assumes "m < 2 ^ (prec F + J)" and "- e \<le> int J"
  shows "nat (max (int (bit_length m) - int (prec F)) (- e)) \<le> J"
proof -
  have "bit_length m \<le> prec F + J" using assms(1) by (rule bit_length_upper)
  then show ?thesis using assms(2) by simp
qed

lemma fp_round_le_pow2:
  assumes m: "m \<le> 2 ^ J" and e: "0 \<le> int J + e" and t: "nat (int J + e) < top F"
    and p: "0 < prec F"
  shows "\<exists>n\<le>2 ^ nat (int J + e). fp_round F s m e = Fin s n"
proof -
  define k where "k = nat (max (int (bit_length m) - int (prec F)) (- e))"
  have "(2::nat) ^ J < 2 ^ (prec F + J)" using p by simp
  with m have "m < 2 ^ (prec F + J)" by linarith
  then have kJ: "k \<le> J" unfolding k_def using e by (intro dropped_le) auto
  have ke: "0 \<le> int k + e" unfolding k_def by (auto simp: max_def)
  have r: "round_even m k \<le> 2 ^ (J - k)" using m kJ by (rule round_even_le)
  have ex: "J - k + nat (int k + e) = nat (int J + e)" using kJ ke by simp
  have "round_even m k * 2 ^ nat (int k + e) \<le> 2 ^ (J - k) * 2 ^ nat (int k + e)"
    using r by simp
  also have "\<dots> = 2 ^ nat (int J + e)" using ex by (simp flip: power_add)
  finally have n: "round_even m k * 2 ^ nat (int k + e) \<le> 2 ^ nat (int J + e)" .
  have "(2::nat) ^ nat (int J + e) < 2 ^ top F"
    using t by (intro power_strict_increasing) auto
  with n have "\<not> 2 ^ top F \<le> round_even m k * 2 ^ nat (int k + e)" by linarith
  then have "fp_round F s m e = Fin s (round_even m k * 2 ^ nat (int k + e))"
    by (simp add: fp_round_def fp_round_at_def fp_pack_def k_def)
  with n show ?thesis by blast
qed

lemma fp_round_exact:
  assumes a: "a < 2 ^ prec F" and e: "0 \<le> int j + e"
    and t: "a * 2 ^ nat (int j + e) < 2 ^ top F"
  shows "fp_round F s (a * 2 ^ j) e = Fin s (a * 2 ^ nat (int j + e))"
proof -
  define k where "k = nat (max (int (bit_length (a * 2 ^ j)) - int (prec F)) (- e))"
  have "a * 2 ^ j < 2 ^ prec F * 2 ^ j" using a by simp
  then have "a * 2 ^ j < 2 ^ (prec F + j)" by (simp add: power_add)
  then have kj: "k \<le> j" unfolding k_def using e by (intro dropped_le) auto
  have ke: "0 \<le> int k + e" unfolding k_def by (auto simp: max_def)
  have split: "a * 2 ^ j = a * 2 ^ (j - k) * 2 ^ k"
    using kj by (simp add: mult.assoc flip: power_add)
  then have dv: "2 ^ k dvd a * 2 ^ j" by (metis dvd_triv_right)
  have "round_even (a * 2 ^ j) k = a * 2 ^ j div 2 ^ k" using dv by (rule round_even_exact)
  also have "\<dots> = a * 2 ^ (j - k)" by (subst split) simp
  finally have r: "round_even (a * 2 ^ j) k = a * 2 ^ (j - k)" .
  have ex: "j - k + nat (int k + e) = nat (int j + e)" using kj ke by simp
  have "round_even (a * 2 ^ j) k * 2 ^ nat (int k + e) = a * (2 ^ (j - k) * 2 ^ nat (int k + e))"
    using r by simp
  also have "\<dots> = a * 2 ^ nat (int j + e)" using ex by (simp flip: power_add)
  finally have n: "round_even (a * 2 ^ j) k * 2 ^ nat (int k + e) = a * 2 ^ nat (int j + e)" .
  show ?thesis using n t
    by (simp add: fp_round_def fp_round_at_def fp_pack_def flip: k_def)
qed

lemma fp_round_zero: "fp_round F s 0 e = Fin s 0"
  by (simp add: fp_round_def fp_round_at_def fp_pack_def round_even_alt)

lemma fp_round_nonzero:
  assumes m: "0 < m" and e: "0 \<le> e" and p: "0 < prec F"
  shows "fp_round F s m e \<noteq> Fin t 0"
proof -
  define k where "k = nat (max (int (bit_length m) - int (prec F)) (- e))"
  have k: "k = bit_length m - prec F" unfolding k_def using e by simp
  have "2 ^ k \<le> m"
  proof (cases "k = 0")
    case True
    then show ?thesis using m by simp
  next
    case False
    then have "k + 1 \<le> bit_length m" using k p by simp
    then have "(2::nat) ^ (k + 1) \<le> 2 ^ bit_length m" by (simp del: power_Suc)
    also have "\<dots> \<le> 2 * m" using m by (rule bit_length_lower)
    finally show ?thesis by simp
  qed
  then have "0 < m div 2 ^ k" by (simp add: div_greater_zero_iff)
  with round_even_ge[of m k] have "0 < round_even m k" by simp
  then have "0 < round_even m k * 2 ^ nat (int k + e)" by simp
  then show ?thesis
    by (simp add: fp_round_def fp_round_at_def fp_pack_def flip: k_def)
qed


text \<open>Evaluation of the arithmetic on concrete values.\<close>

lemmas fp_eval =
  fadd_def fsub_def fmul_def fdiv_def dadd_def dsub_def dmul_def ddiv_def fabsf_def sqrtf_def
  flit_def dlit_def fp_lit_def int_to_float_def int_to_double_def fp_of_int_def
  fp_sub_def fp_sum_def sval_def fp_round_def fp_round_at_def fp_pack_def
  round_even_def round_pick_def fp_round_quot_def fp_quot_at_def with_sticky_def
  binary32_def binary64_def bit_length.simps

lemmas loop_eval =
  escape_loop.simps next_state_def loop_body_def add_c_def pre_square_def
  complex_mul_def complex_mag_squared_def origin_def

lemma flit_0: "flit 0 1 = Fin False 0"
  by (simp add: fp_eval)

lemma flit_16: "flit 16 1 = Fin False (2 ^ 153)"
  by (simp add: fp_eval)

lemma not_lt_16: "\<not> fp_lt m (flit 16 1) \<longleftrightarrow> fp_le (flit 16 1) m \<or> is_nan m"
  unfolding flit_16 by (cases m) (auto simp: sval_def)


section \<open>Properties of the escape-time iteration\<close>

lemma escape_loop_stop:
  "\<not> (iter < max_iter \<and> fp_lt mag_sq (flit 16 1)) \<Longrightarrow>
     escape_loop v max_iter c (z, iter, mag_sq) = (z, iter, mag_sq)"
  by (subst escape_loop.simps) auto

lemma escape_loop_step:
  "iter < max_iter \<Longrightarrow> fp_lt mag_sq (flit 16 1) \<Longrightarrow>
     escape_loop v max_iter c (z, iter, mag_sq) =
     escape_loop v max_iter c
       (loop_body v c z, iter + 1, complex_mag_squared (loop_body v c z))"
  by (subst escape_loop.simps) (auto simp: next_state_def)

lemma escape_loop_result:
  "escape_loop v N c (z, i, m) = (z', i', m') \<Longrightarrow> i \<le> N \<Longrightarrow>
     i \<le> i' \<and> i' \<le> N \<and> (i' < N \<longrightarrow> \<not> fp_lt m' (flit 16 1)) \<and>
     z' = (loop_body v c ^^ nat (i' - i)) z \<and>
     (i' = i \<longrightarrow> m' = m) \<and> (i < i' \<longrightarrow> m' = complex_mag_squared z')"
proof (induction v N c "(z, i, m)" arbitrary: z i m rule: escape_loop.induct)
  case (1 v N c z i m)
  show ?case
  proof (cases "i < N \<and> fp_lt m (flit 16 1)")
    case True
    let ?z = "loop_body v c z"
    have run: "escape_loop v N c (?z, i + 1, complex_mag_squared ?z) = (z', i', m')"
      using True "1.prems"(1) by (simp add: escape_loop_step)
    have ih: "i + 1 \<le> i' \<and> i' \<le> N \<and> (i' < N \<longrightarrow> \<not> fp_lt m' (flit 16 1)) \<and>
        z' = (loop_body v c ^^ nat (i' - (i + 1))) ?z \<and>
        (i' = i + 1 \<longrightarrow> m' = complex_mag_squared ?z) \<and>
        (i + 1 < i' \<longrightarrow> m' = complex_mag_squared z')"
      using "1.hyps"[OF True _ run] True by (simp add: next_state_def)
    then have le: "i + 1 \<le> i'" by simp
    have "nat (i' - i) = Suc (nat (i' - (i + 1)))" using le by simp
    then have z: "(loop_body v c ^^ nat (i' - i)) z = (loop_body v c ^^ nat (i' - (i + 1))) ?z"
      by (simp add: funpow_swap1)
    have m: "m' = complex_mag_squared z'"
    proof (cases "i + 1 < i'")
      case True
      then show ?thesis using ih by simp
    next
      case False
      with le have "i' = i + 1" by simp
      then show ?thesis using ih by simp
    qed
    have a: "i \<le> i'" "i' \<noteq> i" using le by auto
    have b: "i' \<le> N" "i' < N \<longrightarrow> \<not> fp_lt m' (flit 16 1)" using ih by blast+
    have d: "z' = (loop_body v c ^^ nat (i' - i)) z" using ih z by metis
    show ?thesis using a b d m by blast
  next
    case False
    then have "escape_loop v N c (z, i, m) = (z, i, m)" by (rule escape_loop_stop)
    with "1.prems" False show ?thesis by auto
  qed
qed

lemma escape_loop_earlier:
  "escape_loop v N c (z, i, m) = (z', i', m') \<Longrightarrow> i \<le> N \<Longrightarrow>
     (i < i' \<longrightarrow> fp_lt m (flit 16 1)) \<and>
     (\<forall>k. i < k \<and> k < i' \<longrightarrow>
        fp_lt (complex_mag_squared ((loop_body v c ^^ nat (k - i)) z)) (flit 16 1))"
proof (induction v N c "(z, i, m)" arbitrary: z i m rule: escape_loop.induct)
  case (1 v N c z i m)
  show ?case
  proof (cases "i < N \<and> fp_lt m (flit 16 1)")
    case True
    let ?z = "loop_body v c z"
    have run: "escape_loop v N c (?z, i + 1, complex_mag_squared ?z) = (z', i', m')"
      using True "1.prems"(1) by (simp add: escape_loop_step)
    have ih: "(i + 1 < i' \<longrightarrow> fp_lt (complex_mag_squared ?z) (flit 16 1)) \<and>
        (\<forall>k. i + 1 < k \<and> k < i' \<longrightarrow>
           fp_lt (complex_mag_squared ((loop_body v c ^^ nat (k - (i + 1))) ?z)) (flit 16 1))"
      using "1.hyps"[OF True _ run] True by (simp add: next_state_def)
    have "fp_lt (complex_mag_squared ((loop_body v c ^^ nat (k - i)) z)) (flit 16 1)"
      if k: "i < k \<and> k < i'" for k
    proof (cases "k = i + 1")
      case True
      then have "i + 1 < i'" using k by simp
      then have "fp_lt (complex_mag_squared ?z) (flit 16 1)" using ih by blast
      moreover have "nat (k - i) = Suc 0" using True by simp
      ultimately show ?thesis by simp
    next
      case False
      then have lt: "i + 1 < k \<and> k < i'" using k by simp
      then have "nat (k - i) = Suc (nat (k - (i + 1)))" by linarith
      then have "(loop_body v c ^^ nat (k - i)) z = (loop_body v c ^^ nat (k - (i + 1))) ?z"
        by (simp add: funpow_swap1)
      then show ?thesis using ih lt by simp
    qed
    then show ?thesis using True by blast
  next
    case False
    then have "escape_loop v N c (z, i, m) = (z, i, m)" by (rule escape_loop_stop)
    with "1.prems" have "i' = i" by simp
    then show ?thesis by auto
  qed
qed

lemma prec32 [simp]: "0 < prec binary32" "prec binary32 = 24" "uexp binary32 = 149" "top binary32 = 277"
  by (simp_all add: binary32_def)

lemma fp_add_negzero:
  assumes "fp_add F a b = Fin True 0" and "0 < prec F"
  shows "a = Fin True 0 \<and> b = Fin True 0"
proof (cases a)
  case NaN
  with assms show ?thesis by simp
next
  case (Infty s)
  with assms show ?thesis by (cases b) (auto split: if_splits)
next
  case a: (Fin s m)
  show ?thesis
  proof (cases b)
    case NaN
    with assms a show ?thesis by simp
  next
    case (Infty t)
    with assms a show ?thesis by simp
  next
    case b: (Fin t n)
    let ?i = "sval s m + sval t n"
    have sum: "fp_sum F s t ?i = Fin True 0" using assms a b by simp
    show ?thesis
    proof (cases "?i = 0")
      case True
      with sum have "s \<and> t" by (simp add: fp_sum_def)
      with True show ?thesis using a b by (simp add: sval_def)
    next
      case False
      then have "0 < nat \<bar>?i\<bar>" by simp
      from fp_round_nonzero[OF this _ assms(2), of 0 "?i < 0" True]
      show ?thesis using sum False by (simp add: fp_sum_def)
    qed
  qed
qed

lemma fp_mul_fin_sign:
  assumes "fp_mul F a b = Fin s n"
  shows "\<exists>u m v k. a = Fin u m \<and> b = Fin v k \<and> s = (u \<noteq> v)"
proof (cases a)
  case NaN
  with assms show ?thesis by simp
next
  case (Infty u)
  with assms show ?thesis by (cases b) (auto split: if_splits)
next
  case a: (Fin u m)
  show ?thesis
  proof (cases b)
    case NaN
    with assms a show ?thesis by simp
  next
    case (Infty v)
    with assms a show ?thesis by (auto split: if_splits)
  next
    case b: (Fin v k)
    from assms a b have "fp_round F (u \<noteq> v) (m * k) (- int (uexp F)) = Fin s n" by simp
    with fp_round_cases[of F "u \<noteq> v" "m * k" "- int (uexp F)"] have "s = (u \<noteq> v)" by auto
    with a b show ?thesis by simp
  qed
qed

lemma abs_fixed_iff: "fp_abs x = x \<longleftrightarrow> x = NaN \<or> x = Infty False \<or> (\<exists>n. x = Fin False n)"
proof (cases x)
  case NaN
  then show ?thesis by simp
next
  case (Infty s)
  then show ?thesis by simp
next
  case (Fin s n)
  then show ?thesis by simp
qed

lemma not_negative_iff:
  "\<not> fp_lt x (flit 0 1) \<longleftrightarrow> fp_abs x = x \<or> x = Fin True 0"
proof (cases x)
  case NaN
  then show ?thesis by (simp add: flit_0)
next
  case (Infty s)
  then show ?thesis by (simp add: flit_0)
next
  case (Fin s n)
  then show ?thesis by (cases s) (simp_all add: flit_0 sval_def)
qed

lemma mul_abs_fixed_not_negzero:
  assumes "fp_abs x = x" and "fp_abs y = y"
  shows "fp_mul F x y \<noteq> Fin True n"
proof
  assume "fp_mul F x y = Fin True n"
  from fp_mul_fin_sign[OF this] obtain u m v k
    where "x = Fin u m" "y = Fin v k" "True = (u \<noteq> v)" by blast
  with assms show False by auto
qed

lemma mandelbrot_step_no_negzero:
  assumes "fp_abs (f2_x z) = f2_x z" and "fp_abs (f2_y z) = f2_y z"
  shows "f2_x (loop_body Mandelbrot c z) \<noteq> Fin True 0"
    and "f2_y (loop_body Mandelbrot c z) \<noteq> Fin True 0"
proof -
  show "f2_x (loop_body Mandelbrot c z) \<noteq> Fin True 0"
  proof
    assume "f2_x (loop_body Mandelbrot c z) = Fin True 0"
    then have "fp_add binary32 (fp_add binary32 (fp_mul binary32 (f2_x z) (f2_x z))
        (fp_neg (fp_mul binary32 (f2_y z) (f2_y z)))) (f2_x c) = Fin True 0"
      by (simp add: loop_body_def add_c_def pre_square_def complex_mul_def
            fadd_def fsub_def fmul_def fp_sub_def)
    from fp_add_negzero[OF this] have "fp_add binary32 (fp_mul binary32 (f2_x z) (f2_x z))
        (fp_neg (fp_mul binary32 (f2_y z) (f2_y z))) = Fin True 0"
      by simp
    from fp_add_negzero[OF this] have "fp_mul binary32 (f2_x z) (f2_x z) = Fin True 0"
      by simp
    then show False using mul_abs_fixed_not_negzero[OF assms(1) assms(1)] by blast
  qed
  show "f2_y (loop_body Mandelbrot c z) \<noteq> Fin True 0"
  proof
    assume "f2_y (loop_body Mandelbrot c z) = Fin True 0"
    then have "fp_add binary32 (fp_add binary32 (fp_mul binary32 (f2_x z) (f2_y z))
        (fp_mul binary32 (f2_y z) (f2_x z))) (f2_y c) = Fin True 0"
      by (simp add: loop_body_def add_c_def pre_square_def complex_mul_def
            fadd_def fsub_def fmul_def fp_sub_def)
    from fp_add_negzero[OF this] have "fp_add binary32 (fp_mul binary32 (f2_x z) (f2_y z))
        (fp_mul binary32 (f2_y z) (f2_x z)) = Fin True 0"
      by simp
    from fp_add_negzero[OF this] have "fp_mul binary32 (f2_x z) (f2_y z) = Fin True 0"
      by simp
    then show False using mul_abs_fixed_not_negzero[OF assms(1) assms(2)] by blast
  qed
qed

lemma burning_ship_step_eq:
  assumes "fp_abs (f2_x z) = f2_x z" and "fp_abs (f2_y z) = f2_y z"
  shows "loop_body BurningShip c z = loop_body Mandelbrot c z"
  using assms by (cases z) (simp add: loop_body_def pre_square_def fabsf_def)

lemma lockstep:
  assumes "escape_loop Mandelbrot N c (z, i, m) = (z', i', m')" and "i \<le> N"
    and "\<forall>k<nat (i' - i). fp_abs (f2_x ((loop_body Mandelbrot c ^^ k) z)) =
             f2_x ((loop_body Mandelbrot c ^^ k) z) \<and>
           fp_abs (f2_y ((loop_body Mandelbrot c ^^ k) z)) =
             f2_y ((loop_body Mandelbrot c ^^ k) z)"
  shows "escape_loop BurningShip N c (z, i, m) = (z', i', m')"
  using assms
proof (induction Mandelbrot N c "(z, i, m)" arbitrary: z i m rule: escape_loop.induct)
  case (1 N c z i m)
  show ?case
  proof (cases "i < N \<and> fp_lt m (flit 16 1)")
    case True
    let ?z = "loop_body Mandelbrot c z"
    have run: "escape_loop Mandelbrot N c (?z, i + 1, complex_mag_squared ?z) = (z', i', m')"
      using True "1.prems"(1) by (simp add: escape_loop_step)
    from escape_loop_result[OF run] True have le: "i + 1 \<le> i'" by simp
    then have "0 < nat (i' - i)" by simp
    then have fixed: "fp_abs (f2_x z) = f2_x z" "fp_abs (f2_y z) = f2_y z"
      using "1.prems"(3)[rule_format, of 0] by simp_all
    have same: "loop_body BurningShip c z = ?z" using fixed by (rule burning_ship_step_eq)
    have shift: "\<forall>k<nat (i' - (i + 1)).
        fp_abs (f2_x ((loop_body Mandelbrot c ^^ k) ?z)) = f2_x ((loop_body Mandelbrot c ^^ k) ?z) \<and>
        fp_abs (f2_y ((loop_body Mandelbrot c ^^ k) ?z)) = f2_y ((loop_body Mandelbrot c ^^ k) ?z)"
    proof (intro allI impI)
      fix k
      assume "k < nat (i' - (i + 1))"
      then have "Suc k < nat (i' - i)" by simp
      from "1.prems"(3)[rule_format, OF this] show "fp_abs (f2_x ((loop_body Mandelbrot c ^^ k) ?z)) =
          f2_x ((loop_body Mandelbrot c ^^ k) ?z) \<and>
        fp_abs (f2_y ((loop_body Mandelbrot c ^^ k) ?z)) = f2_y ((loop_body Mandelbrot c ^^ k) ?z)"
        by (simp add: funpow_swap1)
    qed
    have "escape_loop BurningShip N c (?z, i + 1, complex_mag_squared ?z) = (z', i', m')"
      using "1.hyps"[OF True _ run _ shift] True by (simp add: next_state_def)
    then show ?thesis using True same by (simp add: escape_loop_step)
  next
    case False
    then have "escape_loop Mandelbrot N c (z, i, m) = (z, i, m)"
      and "escape_loop BurningShip N c (z, i, m) = (z, i, m)"
      by (rule escape_loop_stop)+
    with "1.prems"(1) show ?thesis by simp
  qed
qed

lemma trajectory_abs_fixed:
  assumes "\<forall>j\<le>k. \<not> fp_lt (f2_x ((loop_body Mandelbrot c ^^ j) origin)) (flit 0 1) \<and>
                  \<not> fp_lt (f2_y ((loop_body Mandelbrot c ^^ j) origin)) (flit 0 1)"
  shows "fp_abs (f2_x ((loop_body Mandelbrot c ^^ k) origin)) =
           f2_x ((loop_body Mandelbrot c ^^ k) origin) \<and>
         fp_abs (f2_y ((loop_body Mandelbrot c ^^ k) origin)) =
           f2_y ((loop_body Mandelbrot c ^^ k) origin)"
  using assms
proof (induction k)
  case 0
  then show ?case by (simp add: origin_def flit_0)
next
  case (Suc k)
  let ?z = "(loop_body Mandelbrot c ^^ k) origin"
  have ih: "fp_abs (f2_x ?z) = f2_x ?z \<and> fp_abs (f2_y ?z) = f2_y ?z"
    using Suc by simp
  have nz: "f2_x (loop_body Mandelbrot c ?z) \<noteq> Fin True 0"
    "f2_y (loop_body Mandelbrot c ?z) \<noteq> Fin True 0"
    using mandelbrot_step_no_negzero[of ?z c] ih by simp_all
  have "\<not> fp_lt (f2_x (loop_body Mandelbrot c ?z)) (flit 0 1) \<and>
      \<not> fp_lt (f2_y (loop_body Mandelbrot c ?z)) (flit 0 1)"
    using Suc.prems[rule_format, of "Suc k"] by simp
  then show ?case using nz by (simp add: not_negative_iff)
qed


section \<open>Properties of a launch\<close>

lemma length_run_thread [simp]: "length (run_thread pixel w h t img) = length img"
  by (simp add: run_thread_def)

lemma length_launch [simp]: "length (launch (run_thread pixel w h) sched img) = length img"
  unfolding launch_def by (induction sched arbitrary: img) auto

lemma writes_pixel:
  assumes "writes W H t i"
  shows "pixel (pixel_x t) (pixel_y t) = pixel_at pixel W i" and "i < W * H"
proof -
  define x where "x = blockIdx_x t * blockDim_x t + threadIdx_x t"
  define y where "y = blockIdx_y t * blockDim_y t + threadIdx_y t"
  have xy: "pixel_x t = int x" "pixel_y t = int y"
    by (simp_all add: pixel_x_def pixel_y_def x_def y_def)
  from assms have b: "x < W" "y < H" and i: "i = y * W + x"
    using xy by (auto simp: writes_def nat_add_distrib nat_mult_distrib)
  show "pixel (pixel_x t) (pixel_y t) = pixel_at pixel W i"
    using b i xy by (simp add: pixel_at_def)
  have "y * W + x < y * W + W" using b by simp
  also have "\<dots> = (y + 1) * W" by simp
  also have "\<dots> \<le> H * W" using b by (intro mult_le_mono1) simp
  finally show "i < W * H" using i by (simp add: mult.commute)
qed

lemma run_thread_nth:
  assumes "i < length img" and "length img = W * H"
  shows "run_thread pixel (int W) (int H) t img ! i =
     (if writes W H t i then pixel_at pixel W i else img ! i)"
proof (cases "pixel_x t < int W \<and> pixel_y t < int H")
  case False
  then show ?thesis by (auto simp: run_thread_def writes_def)
next
  case True
  let ?j = "nat (pixel_y t * int W + pixel_x t)"
  have w: "writes W H t ?j" using True by (simp add: writes_def)
  have upd: "run_thread pixel (int W) (int H) t img = img[?j := pixel (pixel_x t) (pixel_y t)]"
    using True by (simp add: run_thread_def)
  show ?thesis
  proof (cases "i = ?j")
    case True
    then show ?thesis using w assms upd writes_pixel(1)[OF w, of pixel] by simp
  next
    case False
    then have "\<not> writes W H t i" by (simp add: writes_def)
    then show ?thesis using False upd by simp
  qed
qed

lemma launch_nth:
  assumes "i < length img" and "length img = W * H"
  shows "launch (run_thread pixel (int W) (int H)) sched img ! i =
     (if \<exists>t\<in>set sched. writes W H t i then pixel_at pixel W i else img ! i)"
  using assms
proof (induction sched arbitrary: img)
  case Nil
  then show ?case by (simp add: launch_def)
next
  case (Cons t ts)
  let ?img = "run_thread pixel (int W) (int H) t img"
  have l: "i < length ?img" "length ?img = W * H" using Cons.prems by simp_all
  have "launch (run_thread pixel (int W) (int H)) (t # ts) img =
      launch (run_thread pixel (int W) (int H)) ts ?img"
    by (simp add: launch_def)
  then show ?case
    using Cons.IH[OF l] run_thread_nth[OF Cons.prems, of pixel t] by auto
qed

text \<open>A grid that covers the image has a thread for every pixel.\<close>

lemma grid_covers:
  assumes i: "i < W * H" and gx: "W \<le> fst g * fst b" and gy: "H \<le> snd g * snd b"
  shows "\<exists>t\<in>grid_threads g b. writes W H t i"
proof -
  have W: "0 < W" using i by (cases W) auto
  let ?x = "i mod W" and ?y = "i div W"
  have x: "?x < W" using W by simp
  have y: "?y < H" using i by (simp add: less_mult_imp_div_less mult.commute)
  have bpx: "0 < fst b" using gx W by (cases "fst b") auto
  have bpy: "0 < snd b" using gy y by (cases "snd b") auto
  let ?t = "\<lparr>blockIdx_x = ?x div fst b, blockIdx_y = ?y div snd b,
             blockDim_x = fst b, blockDim_y = snd b,
             threadIdx_x = ?x mod fst b, threadIdx_y = ?y mod snd b\<rparr>"
  have "?x < fst g * fst b" using x gx by simp
  then have ix: "?x div fst b < fst g" by (simp add: less_mult_imp_div_less)
  have "?y < snd g * snd b" using y gy by simp
  then have iy: "?y div snd b < snd g" by (simp add: less_mult_imp_div_less)
  have "?t \<in> grid_threads g b" using ix iy bpx bpy by (simp add: grid_threads_def)
  moreover have px: "pixel_x ?t = int ?x" "pixel_y ?t = int ?y"
    by (simp_all add: pixel_x_def pixel_y_def)
  have "writes W H ?t i"
    unfolding writes_def px using x y
    by (simp add: nat_add_distrib nat_mult_distrib flip: of_nat_mult of_nat_add)
  ultimately show ?thesis by blast
qed

lemma launch_rendered:
  assumes s: "set sched = grid_threads g b" and l: "length img = W * H"
    and gx: "W \<le> fst g * fst b" and gy: "H \<le> snd g * snd b"
  shows "launch (run_thread pixel (int W) (int H)) sched img = rendered pixel W H"
proof (rule nth_equalityI)
  show "length (launch (run_thread pixel (int W) (int H)) sched img) =
      length (rendered pixel W H)"
    using l by (simp add: rendered_def)
next
  fix i
  assume "i < length (launch (run_thread pixel (int W) (int H)) sched img)"
  then have i: "i < W * H" using l by simp
  then have "\<exists>t\<in>set sched. writes W H t i" using grid_covers[OF i gx gy] s by simp
  then show "launch (run_thread pixel (int W) (int H)) sched img ! i = rendered pixel W H ! i"
    using launch_nth[of i img W H pixel sched] i l by (simp add: rendered_def)
qed

lemma scene_kernel_run_thread:
  "scene_kernel D w h s = run_thread (scene_pixel D w h s) w h"
  by (cases s) (simp_all add: mandelbrot_kernel_def julia_kernel_def burning_ship_kernel_def)

lemma main_grid_covers:
  "WIDTH \<le> fst gridSize * fst blockSize" "HEIGHT \<le> snd gridSize * snd blockSize"
  by (simp_all add: gridSize_def blockSize_def WIDTH_def HEIGHT_def)


section \<open>Properties of the image writer and the driver\<close>

lemma of_char_digit: "d < 10 \<Longrightarrow> (of_char (digit_char d) :: byte) = 48 + of_nat d"
proof -
  assume "d < 10"
  have "(of_char (digit_char d) :: byte) = of_nat (of_char (digit_char d))"
    by (simp only: of_nat_of_char)
  also have "\<dots> = of_nat (48 + d)" using \<open>d < 10\<close> by (simp add: digit_char_def)
  finally show ?thesis by simp
qed

lemma is_digit_digit: "d < 10 \<Longrightarrow> is_digit (of_char (digit_char d))"
proof -
  assume d: "d < 10"
  have "unat (48 + of_nat d :: byte) = 48 + d"
    using d by (simp add: unat_word_ariths unat_of_nat)
  then show ?thesis
    using d by (simp add: of_char_digit is_digit_def word_le_nat_alt)
qed

lemma digit_unat: "d < 10 \<Longrightarrow> unat (of_char (digit_char d) :: byte) - 48 = d"
  by (simp add: of_char_digit unat_word_ariths unat_of_nat)

lemma decimal_digits: "\<forall>b\<in>set (ascii (decimal n)). is_digit b"
proof (induction n rule: decimal.induct)
  case (1 n)
  show ?case
  proof (cases "n < 10")
    case True
    then show ?thesis by (subst decimal.simps) (simp add: ascii_def is_digit_digit)
  next
    case False
    then show ?thesis
      using "1.IH" by (subst decimal.simps) (auto simp: ascii_def is_digit_digit)
  qed
qed

lemma decimal_nonempty: "ascii (decimal n) \<noteq> []"
  by (subst decimal.simps) (simp add: ascii_def)

lemma digits_value_snoc: "digits_value (ds @ [d]) = 10 * digits_value ds + (unat d - 48)"
  by (simp add: digits_value_def)

lemma digits_value_decimal: "digits_value (ascii (decimal n)) = n"
proof (induction n rule: decimal.induct)
  case (1 n)
  show ?case
  proof (cases "n < 10")
    case True
    then show ?thesis
      by (subst decimal.simps) (simp add: ascii_def digits_value_def digit_unat)
  next
    case False
    have "digits_value (ascii (decimal (n div 10)) @ [of_char (digit_char (n mod 10))]) =
        10 * (n div 10) + n mod 10"
      using "1.IH"[OF False] by (simp add: digits_value_snoc digit_unat)
    then show ?thesis using False by (subst decimal.simps) (simp add: ascii_def)
  qed
qed

lemma parse_nat_decimal:
  assumes "\<not> is_digit b"
  shows "parse_nat (ascii (decimal n) @ b # rest) = Some (n, b # rest)"
proof -
  have t: "takeWhile is_digit (ascii (decimal n) @ b # rest) = ascii (decimal n)"
    using decimal_digits[of n] assms by (simp add: takeWhile_append2)
  have d: "dropWhile is_digit (ascii (decimal n) @ b # rest) = b # rest"
    using decimal_digits[of n] assms by (simp add: dropWhile_append2)
  show ?thesis by (simp add: parse_nat_def t d decimal_nonempty digits_value_decimal)
qed

lemma ascii_append [simp]: "ascii (a @ b) = ascii a @ ascii b"
  by (simp add: ascii_def)

lemma print_int_nonneg: "0 \<le> i \<Longrightarrow> print_int i = decimal (nat i)"
  by (simp add: print_int_def)

lemma parse_255:
  "parse_nat (ascii ''255'' @ 10 # payload) = Some (255, 10 # payload)"
  by (simp add: parse_nat_def ascii_def is_digit_def digits_value_def)

lemma space_bytes:
  "is_space 10" "is_space 32" "\<not> is_digit 10" "\<not> is_digit 32"
  by (simp_all add: is_space_def is_digit_def)

lemma parse_header:
  assumes "0 \<le> width" and "0 \<le> height"
  shows "spec_parse_ppm (ascii (ppm_header width height) @ payload) =
     Some (nat width, nat height, 255, payload)"
proof -
  let ?r6 = "10 # payload"
  let ?r5 = "ascii ''255'' @ ?r6"
  let ?r4 = "10 # ?r5"
  let ?r3 = "ascii (decimal (nat height)) @ ?r4"
  let ?r2 = "32 # ?r3"
  let ?r1 = "ascii (decimal (nat width)) @ ?r2"
  have h: "ascii (ppm_header width height) @ payload = 80 # 54 # 10 # ?r1"
    using assms by (simp add: ppm_header_def print_int_nonneg newline_def) (simp add: ascii_def)
  have p1: "parse_nat ?r1 = Some (nat width, ?r2)" by (rule parse_nat_decimal) (rule space_bytes)
  have p3: "parse_nat ?r3 = Some (nat height, ?r4)" by (rule parse_nat_decimal) (rule space_bytes)
  have p5: "parse_nat ?r5 = Some (255, ?r6)" by (rule parse_255)
  show ?thesis
    unfolding h by (simp add: spec_parse_fields_def p1 p3 p5 space_bytes)
qed

lemma length_color_bytes: "length (concat (map color_bytes img)) = 3 * length img"
proof (induction img)
  case Nil
  then show ?case by simp
next
  case (Cons c img)
  then show ?case by (cases c) simp
qed

lemma color_bytes_at:
  "i < length img \<Longrightarrow> take 3 (drop (3 * i) (concat (map color_bytes img))) = color_bytes (img ! i)"
proof (induction img arbitrary: i)
  case Nil
  then show ?case by simp
next
  case (Cons c img)
  obtain r g b where c: "c = Color r g b" by (cases c)
  show ?case
  proof (cases i)
    case 0
    then show ?thesis by (simp add: c)
  next
    case (Suc j)
    have "drop (3 * i) (concat (map color_bytes (c # img))) =
        drop (3 * j) (concat (map color_bytes img))"
      unfolding Suc c by (simp add: drop_Cons')
    then show ?thesis using Cons Suc by simp
  qed
qed

lemma save_ppm_writable [simp]: "writable (save_ppm f img wd ht w) = writable w"
  by (simp add: save_ppm_def printf_def)

lemma save_ppm_files:
  "files (save_ppm f img wd ht w) name =
     (if f \<in> writable w \<and> name = f then Some (ppm_bytes img wd ht) else files w name)"
  by (simp add: save_ppm_def printf_def)

lemma save_ppm_printed:
  "printed (save_ppm f img wd ht w) =
     printed w @ (if f \<notin> writable w then ''Error: Could not open file '' @ f @ [newline]
                  else ''Saved fractal to '' @ f @ [newline])"
  by (simp add: save_ppm_def printf_def)

lemma run_job_state:
  assumes "schedule_of gridSize blockSize (snd js)" and "length d = WIDTH * HEIGHT"
  shows "fst (run_job D js (d, w)) =
           rendered (scene_pixel D (int WIDTH) (int HEIGHT) (scene_of (fst js))) WIDTH HEIGHT"
    and "writable (snd (run_job D js (d, w))) = writable w"
    and "files (snd (run_job D js (d, w))) name =
           (if filename_of (fst js) \<in> writable w \<and> name = filename_of (fst js)
            then Some (ppm_bytes
                   (rendered (scene_pixel D (int WIDTH) (int HEIGHT) (scene_of (fst js))) WIDTH HEIGHT)
                   (int WIDTH) (int HEIGHT))
            else files w name)"
    and "printed (snd (run_job D js (d, w))) = printed w @ report w js"
proof -
  have r: "launch (scene_kernel D (int WIDTH) (int HEIGHT) (scene_of (fst js))) (snd js) d =
      rendered (scene_pixel D (int WIDTH) (int HEIGHT) (scene_of (fst js))) WIDTH HEIGHT"
    unfolding scene_kernel_run_thread
    using assms main_grid_covers by (intro launch_rendered) (auto simp: schedule_of_def)
  show "fst (run_job D js (d, w)) =
      rendered (scene_pixel D (int WIDTH) (int HEIGHT) (scene_of (fst js))) WIDTH HEIGHT"
    by (simp add: run_job_def r)
  show "writable (snd (run_job D js (d, w))) = writable w"
    by (simp add: run_job_def printf_def)
  show "files (snd (run_job D js (d, w))) name =
           (if filename_of (fst js) \<in> writable w \<and> name = filename_of (fst js)
            then Some (ppm_bytes
                   (rendered (scene_pixel D (int WIDTH) (int HEIGHT) (scene_of (fst js))) WIDTH HEIGHT)
                   (int WIDTH) (int HEIGHT))
            else files w name)"
    by (simp add: run_job_def r save_ppm_files printf_def)
  show "printed (snd (run_job D js (d, w))) = printed w @ report w js"
    by (simp add: run_job_def save_ppm_printed printf_def report_def)
qed

lemma length_rendered [simp]: "length (rendered pixel W H) = W * H"
  by (simp add: rendered_def)

lemma run_jobs:
  assumes "\<forall>js\<in>set l. schedule_of gridSize blockSize (snd js)"
    and "length d = WIDTH * HEIGHT"
    and "distinct (map (\<lambda>js. filename_of (fst js)) l)"
  shows "length (fst (foldl (\<lambda>st js. run_job D js st) (d, w) l)) = WIDTH * HEIGHT \<and>
    writable (snd (foldl (\<lambda>st js. run_job D js st) (d, w) l)) = writable w \<and>
    printed (snd (foldl (\<lambda>st js. run_job D js st) (d, w) l)) =
      printed w @ concat (map (report w) l) \<and>
    (\<forall>name. name \<notin> (\<lambda>js. filename_of (fst js)) ` set l \<longrightarrow>
       files (snd (foldl (\<lambda>st js. run_job D js st) (d, w) l)) name = files w name) \<and>
    (\<forall>js\<in>set l.
       files (snd (foldl (\<lambda>st js. run_job D js st) (d, w) l)) (filename_of (fst js)) =
         (if filename_of (fst js) \<in> writable w
          then Some (ppm_bytes
                 (rendered (scene_pixel D (int WIDTH) (int HEIGHT) (scene_of (fst js))) WIDTH HEIGHT)
                 (int WIDTH) (int HEIGHT))
          else files w (filename_of (fst js))))"
  using assms
proof (induction l arbitrary: d w)
  case Nil
  then show ?case by simp
next
  case (Cons a l)
  obtain d1 w1 where st: "run_job D a (d, w) = (d1, w1)" by (cases "run_job D a (d, w)")
  have sa: "schedule_of gridSize blockSize (snd a)" using Cons.prems(1) by simp
  note rj = run_job_state[OF sa Cons.prems(2), of D w]
  have d1: "length d1 = WIDTH * HEIGHT" using rj(1) st by simp
  have w1: "writable w1 = writable w" using rj(2) st by simp
  have rep: "report w1 = report w" by (rule ext) (simp add: report_def w1)
  have f1: "files w1 name =
      (if filename_of (fst a) \<in> writable w \<and> name = filename_of (fst a)
       then Some (ppm_bytes
              (rendered (scene_pixel D (int WIDTH) (int HEIGHT) (scene_of (fst a))) WIDTH HEIGHT)
              (int WIDTH) (int HEIGHT))
       else files w name)" for name
    using rj(3)[of name] st by simp
  have p1: "printed w1 = printed w @ report w a" using rj(4) st by simp
  have ih: "length (fst (foldl (\<lambda>st js. run_job D js st) (d1, w1) l)) = WIDTH * HEIGHT \<and>
    writable (snd (foldl (\<lambda>st js. run_job D js st) (d1, w1) l)) = writable w1 \<and>
    printed (snd (foldl (\<lambda>st js. run_job D js st) (d1, w1) l)) =
      printed w1 @ concat (map (report w1) l) \<and>
    (\<forall>name. name \<notin> (\<lambda>js. filename_of (fst js)) ` set l \<longrightarrow>
       files (snd (foldl (\<lambda>st js. run_job D js st) (d1, w1) l)) name = files w1 name) \<and>
    (\<forall>js\<in>set l.
       files (snd (foldl (\<lambda>st js. run_job D js st) (d1, w1) l)) (filename_of (fst js)) =
         (if filename_of (fst js) \<in> writable w1
          then Some (ppm_bytes
                 (rendered (scene_pixel D (int WIDTH) (int HEIGHT) (scene_of (fst js))) WIDTH HEIGHT)
                 (int WIDTH) (int HEIGHT))
          else files w1 (filename_of (fst js))))"
    using Cons.prems by (intro Cons.IH d1) auto
  have fresh: "filename_of (fst a) \<notin> (\<lambda>js. filename_of (fst js)) ` set l"
    using Cons.prems(3) by auto
  have fold: "foldl (\<lambda>st js. run_job D js st) (d, w) (a # l) =
      foldl (\<lambda>st js. run_job D js st) (d1, w1) l"
    by (simp add: st)
  show ?case
    unfolding fold using ih fresh by (auto simp: w1 rep p1 f1)
qed

lemma jobs_distinct: "distinct (map filename_of jobs)"
  by (simp add: jobs_def)

lemma map_fst_zip_jobs:
  "length schedules = length jobs \<Longrightarrow> map fst (zip jobs schedules) = jobs"
  by simp

lemma grid_schedule_ok: "schedule_of g b (grid_schedule g b)"
proof -
  have "t \<in> set (grid_schedule g b)" if "t \<in> grid_threads g b" for t
  proof -
    have "t = \<lparr>blockIdx_x = blockIdx_x t, blockIdx_y = blockIdx_y t, blockDim_x = fst b,
        blockDim_y = snd b, threadIdx_x = threadIdx_x t, threadIdx_y = threadIdx_y t\<rparr>"
      using that by (cases t) (simp add: grid_threads_def)
    moreover have "blockIdx_x t \<in> set [0..<fst g]" "blockIdx_y t \<in> set [0..<snd g]"
      "threadIdx_x t \<in> set [0..<fst b]" "threadIdx_y t \<in> set [0..<snd b]"
      using that by (simp_all add: grid_threads_def)
    ultimately have "\<exists>i\<in>set [0..<fst g]. \<exists>j\<in>set [0..<snd g].
        \<exists>k\<in>set [0..<fst b]. \<exists>l\<in>set [0..<snd b].
          t = \<lparr>blockIdx_x = i, blockIdx_y = j, blockDim_x = fst b, blockDim_y = snd b,
               threadIdx_x = k, threadIdx_y = l\<rparr>"
      by blast
    then show ?thesis by (simp add: grid_schedule_def image_iff)
  qed
  moreover have "t \<in> grid_threads g b" if "t \<in> set (grid_schedule g b)" for t
    using that by (auto simp: grid_schedule_def grid_threads_def)
  ultimately show ?thesis unfolding schedule_of_def by blast
qed

lemma printf_fields [simp]:
  "printed (printf s w) = printed w @ s" "files (printf s w) = files w"
  "writable (printf s w) = writable w"
  by (simp_all add: printf_def)

lemma concat_member:
  "x \<in> set l \<Longrightarrow> \<exists>pre post. concat (map f l) = pre @ f x @ post"
proof -
  assume "x \<in> set l"
  then obtain l1 l2 where "l = l1 @ x # l2" by (meson split_list)
  then have "concat (map f l) = concat (map f l1) @ f x @ concat (map f l2)" by simp
  then show ?thesis by blast
qed

lemma main_result:
  assumes len: "length schedules = length jobs"
    and sch: "\<forall>s\<in>set schedules. schedule_of gridSize blockSize s"
    and d: "length d_image = WIDTH * HEIGHT"
    and j: "j \<in> set jobs"
  shows "fst (main D schedules d_image w) = 0"
    and "files (snd (main D schedules d_image w)) (filename_of j) =
         (if filename_of j \<in> writable w
          then Some (ppm_bytes
                 (rendered (scene_pixel D (int WIDTH) (int HEIGHT) (scene_of j)) WIDTH HEIGHT)
                 (int WIDTH) (int HEIGHT))
          else files w (filename_of j))"
    and "filename_of j \<notin> writable w \<Longrightarrow>
         \<exists>pre post. printed (snd (main D schedules d_image w)) =
           pre @ ''Error: Could not open file '' @ filename_of j @ [newline] @ post"
proof -
  let ?l = "zip jobs schedules"
  let ?w = "printf banner w"
  let ?end = "foldl (\<lambda>st js. run_job D js st) (d_image, ?w) ?l"
  have m: "main D schedules d_image w = (0, printf finale (snd ?end))"
    by (simp add: main_def)
  have s: "\<forall>js\<in>set ?l. schedule_of gridSize blockSize (snd js)"
    using sch by (auto dest: set_zip_rightD)
  have "map (\<lambda>js. filename_of (fst js)) ?l = map filename_of (map fst ?l)" by simp
  also have "\<dots> = map filename_of jobs" using len by simp
  finally have dist: "distinct (map (\<lambda>js. filename_of (fst js)) ?l)"
    using jobs_distinct by simp
  obtain sc where js: "(j, sc) \<in> set ?l"
    using j len by (metis in_set_impl_in_set_zip1)
  note r = run_jobs[OF s d dist, of D ?w]
  show "fst (main D schedules d_image w) = 0" by (simp add: m)
  have "files (snd ?end) (filename_of (fst (j, sc))) =
      (if filename_of (fst (j, sc)) \<in> writable ?w
       then Some (ppm_bytes
              (rendered (scene_pixel D (int WIDTH) (int HEIGHT) (scene_of (fst (j, sc)))) WIDTH HEIGHT)
              (int WIDTH) (int HEIGHT))
       else files ?w (filename_of (fst (j, sc))))"
    using r js by blast
  then show "files (snd (main D schedules d_image w)) (filename_of j) =
         (if filename_of j \<in> writable w
          then Some (ppm_bytes
                 (rendered (scene_pixel D (int WIDTH) (int HEIGHT) (scene_of j)) WIDTH HEIGHT)
                 (int WIDTH) (int HEIGHT))
          else files w (filename_of j))"
    by (simp add: m)
  assume nw: "filename_of j \<notin> writable w"
  have p: "printed (snd ?end) = printed ?w @ concat (map (report ?w) ?l)" using r by blast
  obtain pre post where c: "concat (map (report ?w) ?l) = pre @ report ?w (j, sc) @ post"
    using concat_member[OF js] by blast
  have rep: "report ?w (j, sc) =
      title j @ ''Error: Could not open file '' @ filename_of j @ [newline]"
    using nw by (simp add: report_def)
  have "printed (snd (main D schedules d_image w)) =
      (printed ?w @ pre @ title j) @
      ''Error: Could not open file '' @ filename_of j @ [newline] @ (post @ finale)"
    unfolding m by (simp add: p c rep)
  then show "\<exists>pre post. printed (snd (main D schedules d_image w)) =
           pre @ ''Error: Could not open file '' @ filename_of j @ [newline] @ post"
    by blast
qed


section \<open>The centre of the classic Mandelbrot scene\<close>


lemma prec64 [simp]: "0 < prec binary64" "prec binary64 = 53" "uexp binary64 = 1074" "top binary64 = 2098"
  by (simp_all add: binary64_def)









lemma fp_div_exact:
  assumes m: "m = q * n" and n: "0 < n" and q: "q < 2 ^ prec F"
    and t: "q * 2 ^ uexp F < 2 ^ top F"
  shows "fp_div F (Fin s m) (Fin t n) = Fin (s \<noteq> t) (q * 2 ^ uexp F)"
proof -
  define sh where "sh = prec F + 2 + bit_length n - bit_length m"
  have x: "m * 2 ^ sh = q * 2 ^ sh * n" using m by simp
  then have d: "m * 2 ^ sh div n = q * 2 ^ sh" using n by simp
  have ws: "with_sticky (q * 2 ^ sh) (m * 2 ^ sh) n = q * 2 ^ (sh + 1)"
    using x by (simp add: with_sticky_def)
  have e: "0 \<le> int (sh + 1) + (int (uexp F) - int sh - 1)" by simp
  have ne: "nat (int (sh + 1) + (int (uexp F) - int sh - 1)) = uexp F" by simp
  have r: "fp_round F (s \<noteq> t) (q * 2 ^ (sh + 1)) (int (uexp F) - int sh - 1) =
      Fin (s \<noteq> t) (q * 2 ^ uexp F)"
    using fp_round_exact[OF q e, of "s \<noteq> t"] t unfolding ne by simp
  have "fp_div F (Fin s m) (Fin t n) =
      fp_round F (s \<noteq> t) (with_sticky (m * 2 ^ sh div n) (m * 2 ^ sh) n)
        (int (uexp F) - int sh - 1)"
    using n by (simp add: fp_round_quot_def fp_quot_at_def sh_def)
  then show ?thesis by (simp only: d ws r)
qed

lemma fp_div_le_one:
  assumes mn: "m \<le> n" and n: "0 < n" and t: "uexp F < top F" and p: "0 < prec F"
  shows "\<exists>r\<le>2 ^ uexp F. fp_div F (Fin s m) (Fin t n) = Fin (s \<noteq> t) r"
proof -
  define sh where "sh = prec F + 2 + bit_length n - bit_length m"
  define x where "x = m * 2 ^ sh"
  define q where "q = x div n"
  have "x \<le> 2 ^ sh * n" using mn by (simp add: x_def mult.commute)
  then have ql: "q \<le> 2 ^ sh" unfolding q_def using n
    by (metis div_le_mono nonzero_mult_div_cancel_right less_numeral_extra(3))
  have ws: "with_sticky q x n \<le> 2 ^ (sh + 1)"
  proof (cases "q = 2 ^ sh")
    case True
    have "q * n \<le> x" unfolding q_def by simp
    moreover have "x \<le> q * n" using \<open>x \<le> 2 ^ sh * n\<close> True by simp
    ultimately have "q * n = x" by simp
    then show ?thesis using True by (simp add: with_sticky_def)
  next
    case False
    with ql have "q + 1 \<le> 2 ^ sh" by simp
    then have "2 * q + 1 \<le> 2 * 2 ^ sh" by simp
    then show ?thesis by (simp add: with_sticky_def)
  qed
  have e: "0 \<le> int (sh + 1) + (int (uexp F) - int sh - 1)" by simp
  have ne: "nat (int (sh + 1) + (int (uexp F) - int sh - 1)) = uexp F" by simp
  from fp_round_le_pow2[OF ws e _ p, of "s \<noteq> t"] t
  have r: "\<exists>r\<le>2 ^ uexp F. fp_round F (s \<noteq> t) (with_sticky q x n) (int (uexp F) - int sh - 1) =
      Fin (s \<noteq> t) r"
    unfolding ne by simp
  have "fp_div F (Fin s m) (Fin t n) =
      fp_round F (s \<noteq> t) (with_sticky q x n) (int (uexp F) - int sh - 1)"
    using n by (simp add: fp_round_quot_def fp_quot_at_def sh_def x_def q_def)
  then show ?thesis using r by (simp only:)
qed

lemma dlit_values:
  "dlit 0 1 = Fin False 0" "dlit 5 10 = Fin False (2 ^ 1073)" "dlit 1 1 = Fin False (2 ^ 1074)"
  "dlit 2 1 = Fin False (2 ^ 1075)" "dlit 4 1 = Fin False (2 ^ 1076)"
  by (simp_all add: fp_eval)

lemma int_to_double_small:
  "0 \<le> i \<Longrightarrow> i < 2 ^ 53 \<Longrightarrow> int_to_double i = Fin False (nat i * 2 ^ 1074)"
proof -
  assume i: "0 \<le> i" "i < 2 ^ 53"
  then have a: "nat i < 2 ^ prec binary64" by (simp add: nat_less_iff)
  have t: "nat i * 2 ^ nat (int 0 + int (uexp binary64)) < 2 ^ top binary64"
  proof -
    have "nat i * 2 ^ 1074 < 2 ^ 53 * 2 ^ 1074" using a by simp
    also have "\<dots> \<le> (2::nat) ^ 2098" by simp
    finally show ?thesis by simp
  qed
  from fp_round_exact[OF a _ t, of False] show ?thesis
    using i by (simp add: int_to_double_def fp_of_int_def)
qed



lemma scale_1080:
  "\<exists>r\<le>2 ^ 1074. plane_scale (dlit 1 1) 1920 1080 = Fin False r"
proof -
  have i: "int_to_double (min 1920 1080) = Fin False (1080 * 2 ^ 1074)"
    using int_to_double_small[of 1080] by simp
  have "fp_round binary64 False (1080 * 2 ^ 2148) (- 1074) = Fin False (1080 * 2 ^ 1074)"
    using fp_round_exact[of 1080 binary64 2148 "- 1074" False] by simp
  then have m: "dmul (dlit 1 1) (Fin False (1080 * 2 ^ 1074)) = Fin False (1080 * 2 ^ 1074)"
    by (simp add: dmul_def dlit_values)
  have "\<exists>r\<le>2 ^ uexp binary64.
      fp_div binary64 (Fin False (2 ^ 1076)) (Fin False (1080 * 2 ^ 1074)) = Fin (False \<noteq> False) r"
    by (rule fp_div_le_one) simp_all
  then show ?thesis
    unfolding plane_scale_def i m by (simp add: ddiv_def dlit_values)
qed

lemma offset_center:
  assumes "0 \<le> x" and "x < 2 ^ 52"
  shows "plane_offset x (2 * x) (Fin False r) = Fin False 0"
proof -
  let ?n = "nat x * 2 ^ 1074"
  have ix: "int_to_double x = Fin False ?n"
    using assms by (intro int_to_double_small) auto
  have iw: "int_to_double (2 * x) = Fin False (nat (2 * x) * 2 ^ 1074)"
    using assms by (intro int_to_double_small) auto
  have q: "nat x < 2 ^ prec binary64"
    using assms by (simp add: nat_less_iff)
  have t: "nat x * 2 ^ uexp binary64 < 2 ^ top binary64"
  proof -
    have "nat x * 2 ^ 1074 < 2 ^ 53 * 2 ^ 1074" using q by simp
    also have "\<dots> \<le> (2::nat) ^ 2098" by simp
    finally show ?thesis by simp
  qed
  have mq: "nat (2 * x) * 2 ^ 1074 = nat x * 2 ^ 1075"
    using assms by (simp add: nat_mult_distrib)
  have half: "ddiv (Fin False (nat (2 * x) * 2 ^ 1074)) (dlit 2 1) = Fin False ?n"
    using fp_div_exact[OF mq _ q t, of False False] by (simp add: ddiv_def dlit_values)
  have diff: "dsub (Fin False ?n) (Fin False ?n) = Fin False 0"
    by (simp add: dsub_def fp_sub_def sval_def fp_sum_def)
  have "dmul (Fin False 0) (Fin False r) = Fin False 0"
    by (simp add: dmul_def fp_round_zero)
  then show ?thesis
    unfolding plane_offset_def ix iw half diff .
qed




section \<open>The phase constants\<close>

lemma arctan_partial_sums:
  fixes x :: real
  assumes "0 \<le> x" and "x \<le> 1"
  shows "(\<Sum>k<2 * n. (- 1) ^ k * (1 / real (k * 2 + 1) * x ^ (k * 2 + 1))) \<le> arctan x"
    and "arctan x \<le> (\<Sum>k<2 * n + 1. (- 1) ^ k * (1 / real (k * 2 + 1) * x ^ (k * 2 + 1)))"
proof -
  let ?a = "\<lambda>k. 1 / real (k * 2 + 1) * x ^ (k * 2 + 1)"
  have ax: "\<bar>x\<bar> \<le> 1" using assms by simp
  have zero: "?a \<longlonglongrightarrow> 0" using ax by (rule zeroseq_arctan_series)
  have pos: "0 \<le> ?a k" for k using assms by simp
  have dec: "?a (Suc k) \<le> ?a k" for k
  proof -
    have "x ^ (Suc k * 2 + 1) \<le> x ^ (k * 2 + 1)"
      using assms by (intro power_decreasing) auto
    moreover have "1 / real (Suc k * 2 + 1) \<le> 1 / real (k * 2 + 1)"
      by (simp add: field_simps)
    ultimately show ?thesis
      using assms by (intro mult_mono) auto
  qed
  have s: "arctan x = (\<Sum>k. (- 1) ^ k * ?a k)" using ax by (rule arctan_series)
  show "(\<Sum>k<2 * n. (- 1) ^ k * ?a k) \<le> arctan x"
    unfolding s using summable_Leibniz'(2)[of ?a, OF zero pos dec] by simp
  show "arctan x \<le> (\<Sum>k<2 * n + 1. (- 1) ^ k * ?a k)"
    unfolding s using summable_Leibniz'(4)[of ?a, OF zero pos dec] by simp
qed

lemma pi_above: "3.1415 < pi"
proof -
  have m: "pi = 16 * arctan (1 / 5) - 4 * arctan (1 / 239)" using machin by simp
  have lo: "(\<Sum>k<2 * 2. (- 1) ^ k * (1 / real (k * 2 + 1) * (1 / 5) ^ (k * 2 + 1)))
      \<le> arctan (1 / 5)"
    by (rule arctan_partial_sums) simp_all
  have hi: "arctan (1 / 239) \<le>
      (\<Sum>k<2 * 0 + 1. (- 1) ^ k * (1 / real (k * 2 + 1) * (1 / 239) ^ (k * 2 + 1)))"
    by (rule arctan_partial_sums) simp_all
  show ?thesis
    unfolding m using lo hi by (simp add: eval_nat_numeral)
qed

lemma phase_values:
  "fp_value binary32 (flit 2094 1000) = Some (8782873 / 4194304)"
  "fp_value binary32 (flit 4188 1000) = Some (8782873 / 2097152)"
  by (simp_all add: fp_eval)

lemma phases_below:
  "(8782873 / 4194304 :: real) < 2 * pi / 3" "(8782873 / 2097152 :: real) < 4 * pi / 3"
  using pi_above by simp_all


lemma float_to_uchar_truncates:
  "n < 256 * 2 ^ 149 \<Longrightarrow> unat (float_to_uchar D (Fin False n)) = n div 2 ^ 149"
proof -
  assume n: "n < 256 * 2 ^ 149"
  then have "n div 2 ^ 149 < 256" by (simp add: less_mult_imp_div_less)
  then show ?thesis using n by (simp add: drop_bit_eq_div unat_of_nat)
qed

lemma byte_range: "unat (b :: 8 word) \<le> 255"
  using unsigned_less[of b, where 'a = nat] by simp

section \<open>The plane mapper at the centre of a Julia image\<close>

lemma julia_center:
  "julia_plane 1920 1080 (dlit 1 1) 960 540 = (Fin False 0, Fin False 0)"
proof -
  obtain r where r: "plane_scale (dlit 1 1) 1920 1080 = Fin False r"
    using scale_1080 by blast
  have ox: "plane_offset 960 1920 (Fin False r) = Fin False 0"
    using offset_center[of 960 r] by simp
  have oy: "plane_offset 540 1080 (Fin False r) = Fin False 0"
    using offset_center[of 540 r] by simp
  show ?thesis unfolding julia_plane_def r ox oy ..
qed

lemma one_plus_zero: "dadd (dlit 1 1) (Fin False 0) = Fin False (2 ^ 1074)"
proof -
  have "fp_round binary64 False (2 ^ 1074) 0 = Fin False (2 ^ 1074)"
    using fp_round_exact[of 1 binary64 1074 0 False] by simp
  then show ?thesis by (simp add: dadd_def dlit_values sval_def fp_sum_def)
qed

section \<open>The square root of an escape magnitude\<close>






lemma first_test_passes: "fp_lt (flit 0 1) (flit 16 1)"
  by (simp add: fp_eval)

lemma cap_is_black: "color_of D max_iter (z, max_iter, m) = Color 0 0 0"
  by (simp add: get_color_def)

lemma run_julia_5:
  "escape_loop Julia MAX_ITER (make_float2 (flit 0 1) (flit 0 1))
     (make_float2 (flit 5 1) (flit 0 1), 0, flit 0 1) =
     (make_float2 (flit 25 1) (flit 0 1), 1, flit 625 1)"
  by (simp add: fp_eval loop_eval MAX_ITER_def)


lemma run_c22:
  "escape_loop Mandelbrot MAX_ITER (make_float2 (flit 2 1) (flit 2 1)) (origin, 0, flit 0 1) =
     (make_float2 (flit 2 1) (flit 10 1), 2, flit 104 1)"
  by (simp add: fp_eval loop_eval MAX_ITER_def)

lemma trajectory_c22:
  "\<forall>k<nat 2.
     \<not> fp_lt (f2_x ((loop_body Mandelbrot (make_float2 (flit 2 1) (flit 2 1)) ^^ k) origin)) (flit 0 1) \<and>
     \<not> fp_lt (f2_y ((loop_body Mandelbrot (make_float2 (flit 2 1) (flit 2 1)) ^^ k) origin)) (flit 0 1)"
proof (intro allI impI)
  fix k :: nat
  assume "k < nat 2"
  then have "k = 0 \<or> k = 1" by auto
  then show "\<not> fp_lt (f2_x ((loop_body Mandelbrot (make_float2 (flit 2 1) (flit 2 1)) ^^ k) origin)) (flit 0 1) \<and>
     \<not> fp_lt (f2_y ((loop_body Mandelbrot (make_float2 (flit 2 1) (flit 2 1)) ^^ k) origin)) (flit 0 1)"
    by (auto simp: fp_eval loop_eval)
qed



lemma step_c22:
  "fp_lt (complex_mag_squared (loop_body Mandelbrot (make_float2 (flit 2 1) (flit 2 1)) origin))
     (flit 16 1)"
  by (simp add: fp_eval loop_eval)

lemma mag_2_10: "complex_mag_squared (make_float2 (flit 2 1) (flit 10 1)) = flit 104 1"
  by (simp add: fp_eval loop_eval)

lemma le_16_16: "fp_le (flit 16 1) (flit 16 1)"
  by (simp add: flit_16)

lemma le_16_104: "fp_le (flit 16 1) (flit 104 1)"
  by (simp add: fp_eval)

section \<open>The claims\<close>

text \<open>
  C1. For every variant, starting point and constant, and every cap \<open>max_iter \<ge> 0\<close>, the
  evaluator returns after exactly \<open>iter\<close> transitions \<open>z \<leftarrow> z*z + c\<close> with
  \<open>0 \<le> iter \<le> max_iter\<close> (that it returns at all is the termination proof of
  \<open>escape_loop\<close>, whose measure is \<open>max_iter - iter\<close>). The returned magnitude is the squared
  magnitude of the returned \<open>z\<close>, or the initial \<open>0.0\<close> when no transition was made, which
  happens only for the cap \<open>0\<close>. Every iterate before the last had a squared magnitude below
  \<open>16.0\<close>, and whenever \<open>iter < max_iter\<close> the final squared magnitude is not below
  \<open>16.0\<close>: it is at least \<open>16.0\<close>, or it is a NaN. The two tests are terminal in this order:
  a state at the cap is final whatever its magnitude, and is coloured black; below the cap a
  state whose squared magnitude is at least \<open>16.0\<close> or a NaN is final, and any other state
  makes one more transition.
\<close>

theorem escape_result_range:
  assumes "0 \<le> max_iter"
    and "escape_loop v max_iter c (z0, 0, flit 0 1) = (z, iter, mag_sq)"
  shows "0 \<le> iter \<and> iter \<le> max_iter \<and> z = (loop_body v c ^^ nat iter) z0 \<and>
    mag_sq = (if iter = 0 then flit 0 1 else complex_mag_squared z) \<and>
    (iter = 0 \<longleftrightarrow> max_iter = 0) \<and>
    (\<forall>k. 0 < k \<and> k < iter \<longrightarrow>
       fp_lt (complex_mag_squared ((loop_body v c ^^ nat k) z0)) (flit 16 1)) \<and>
    (iter < max_iter \<longrightarrow>
       \<not> fp_lt mag_sq (flit 16 1) \<and> (fp_le (flit 16 1) mag_sq \<or> is_nan mag_sq)) \<and>
    (fp_le (flit 16 1) m' \<or> is_nan m' \<longrightarrow>
       escape_loop v max_iter c (z', i', m') = (z', i', m')) \<and>
    (i' < max_iter \<and> fp_lt m' (flit 16 1) \<longrightarrow>
       escape_loop v max_iter c (z', i', m') =
       escape_loop v max_iter c
         (loop_body v c z', i' + 1, complex_mag_squared (loop_body v c z'))) \<and>
    escape_loop v max_iter c (z', max_iter, m') = (z', max_iter, m') \<and>
    color_of D max_iter (z', max_iter, m') = Color 0 0 0"
proof -
  from escape_loop_result[OF assms(2) assms(1)]
  have r: "0 \<le> iter" "iter \<le> max_iter" "z = (loop_body v c ^^ nat iter) z0"
    "iter < max_iter \<longrightarrow> \<not> fp_lt mag_sq (flit 16 1)"
    "iter = 0 \<longrightarrow> mag_sq = flit 0 1" "0 < iter \<longrightarrow> mag_sq = complex_mag_squared z"
    by simp_all
  then have m: "mag_sq = (if iter = 0 then flit 0 1 else complex_mag_squared z)"
    by (cases "iter = 0") auto
  have zero: "iter = 0 \<longleftrightarrow> max_iter = 0"
  proof
    assume "iter = 0"
    with r(4,5) first_test_passes have "\<not> iter < max_iter" by auto
    with r(2) \<open>iter = 0\<close> show "max_iter = 0" by simp
  next
    assume "max_iter = 0"
    with r(1,2) show "iter = 0" by simp
  qed
  from escape_loop_earlier[OF assms(2) assms(1)]
  have e: "\<forall>k. 0 < k \<and> k < iter \<longrightarrow>
       fp_lt (complex_mag_squared ((loop_body v c ^^ nat k) z0)) (flit 16 1)"
    by simp
  have esc: "iter < max_iter \<longrightarrow>
       \<not> fp_lt mag_sq (flit 16 1) \<and> (fp_le (flit 16 1) mag_sq \<or> is_nan mag_sq)"
    using r(4) by (simp add: not_lt_16)
  have t: "fp_le (flit 16 1) m' \<or> is_nan m' \<longrightarrow>
       escape_loop v max_iter c (z', i', m') = (z', i', m')"
  proof
    assume "fp_le (flit 16 1) m' \<or> is_nan m'"
    then have "\<not> fp_lt m' (flit 16 1)" by (simp add: not_lt_16)
    then show "escape_loop v max_iter c (z', i', m') = (z', i', m')"
      by (intro escape_loop_stop) simp
  qed
  have s: "i' < max_iter \<and> fp_lt m' (flit 16 1) \<longrightarrow>
       escape_loop v max_iter c (z', i', m') =
       escape_loop v max_iter c
         (loop_body v c z', i' + 1, complex_mag_squared (loop_body v c z'))"
    using escape_loop_step[of i' max_iter m' v c z'] by blast
  have cap: "escape_loop v max_iter c (z', max_iter, m') = (z', max_iter, m')"
    by (rule escape_loop_stop) simp
  have b: "color_of D max_iter (z', max_iter, m') = Color 0 0 0"
    by (rule cap_is_black)
  from r(1,2,3) m zero e esc t s cap b show ?thesis by blast
qed

theorem escape_result_range_witness:
  "0 \<le> MAX_ITER \<and>
   escape_loop Mandelbrot MAX_ITER (make_float2 (flit 2 1) (flit 2 1)) (origin, 0, flit 0 1) =
     (make_float2 (flit 2 1) (flit 10 1), 2, flit 104 1) \<and>
   2 < MAX_ITER \<and>
   fp_lt (complex_mag_squared
     ((loop_body Mandelbrot (make_float2 (flit 2 1) (flit 2 1)) ^^ nat 1) origin)) (flit 16 1) \<and>
   fp_le (flit 16 1) (flit 104 1) \<and>
   escape_loop Mandelbrot MAX_ITER (make_float2 (flit 2 1) (flit 2 1)) (origin, 7, flit 16 1) =
     (origin, 7, flit 16 1) \<and>
   7 < MAX_ITER \<and> fp_lt (flit 0 1) (flit 16 1) \<and>
   escape_loop Mandelbrot MAX_ITER (make_float2 (flit 2 1) (flit 2 1)) (origin, 7, flit 0 1) =
   escape_loop Mandelbrot MAX_ITER (make_float2 (flit 2 1) (flit 2 1))
     (loop_body Mandelbrot (make_float2 (flit 2 1) (flit 2 1)) origin, 7 + 1,
      complex_mag_squared (loop_body Mandelbrot (make_float2 (flit 2 1) (flit 2 1)) origin))"
proof -
  have m: "0 \<le> MAX_ITER" "2 < MAX_ITER" "7 < MAX_ITER" by (simp_all add: MAX_ITER_def)
  note t = escape_result_range[OF m(1) run_c22, where z' = origin and i' = 7]
  have e: "\<forall>k. 0 < k \<and> k < (2::int) \<longrightarrow>
       fp_lt (complex_mag_squared
         ((loop_body Mandelbrot (make_float2 (flit 2 1) (flit 2 1)) ^^ nat k) origin)) (flit 16 1)"
    using t[of "flit 16 1" unit_device] by blast
  have e1: "fp_lt (complex_mag_squared
     ((loop_body Mandelbrot (make_float2 (flit 2 1) (flit 2 1)) ^^ nat 1) origin)) (flit 16 1)"
    using e[rule_format, of 1] by simp
  have stop: "escape_loop Mandelbrot MAX_ITER (make_float2 (flit 2 1) (flit 2 1))
      (origin, 7, flit 16 1) = (origin, 7, flit 16 1)"
    using t[of "flit 16 1" unit_device] le_16_16 by blast
  have step: "escape_loop Mandelbrot MAX_ITER (make_float2 (flit 2 1) (flit 2 1)) (origin, 7, flit 0 1) =
   escape_loop Mandelbrot MAX_ITER (make_float2 (flit 2 1) (flit 2 1))
     (loop_body Mandelbrot (make_float2 (flit 2 1) (flit 2 1)) origin, 7 + 1,
      complex_mag_squared (loop_body Mandelbrot (make_float2 (flit 2 1) (flit 2 1)) origin))"
    using t[of "flit 0 1" unit_device] m(3) first_test_passes by blast
  from m run_c22 e1 le_16_104 stop step first_test_passes show ?thesis by blast
qed

text \<open>
  As the claim states it, an escape has a squared magnitude of at least \<open>16.0\<close>. The Julia
  loop from \<open>z0 = (-\<infinity>, 0)\<close>, which \<^verbatim>\<open>julia_kernel\<close> computes for a small positive zoom,
  and the Julia loop from the finite \<open>z0 = (2^100, 2^100)\<close> both stop after one step with a
  NaN, which is not at least \<open>16.0\<close>.
\<close>

theorem escape_magnitude_counterexample:
  "escape_loop Julia MAX_ITER (make_float2 (flit 0 1) (flit 0 1))
     (make_float2 (Infty True) (flit 0 1), 0, flit 0 1) =
     (make_float2 (Infty False) NaN, 1, NaN) \<and>
   escape_loop Julia MAX_ITER (make_float2 (flit 0 1) (flit 0 1))
     (make_float2 (Fin False (2 ^ 249)) (Fin False (2 ^ 249)), 0, flit 0 1) =
     (make_float2 NaN (Infty False), 1, NaN) \<and>
   1 < MAX_ITER \<and> \<not> fp_le (flit 16 1) NaN"
  by (simp add: fp_eval loop_eval MAX_ITER_def)

text \<open>
  C10. For every variant and starting point, if \<open>max_iter \<ge> 1\<close> the evaluator returns
  \<open>iter \<ge> 1\<close>: the magnitude tested before the first step is \<open>0.0\<close>, not that of the
  starting point. It returns exactly \<open>1\<close> when the cap is \<open>1\<close> or the first iterate fails
  the test \<open>|z|^2 < 16.0\<close>.
\<close>

theorem first_iteration_always_runs:
  assumes "1 \<le> max_iter"
    and "escape_loop v max_iter c (z0, 0, flit 0 1) = (z, iter, mag_sq)"
  shows "1 \<le> iter \<and>
    (iter = 1 \<longleftrightarrow>
       max_iter = 1 \<or> \<not> fp_lt (complex_mag_squared (loop_body v c z0)) (flit 16 1))"
proof -
  let ?z = "loop_body v c z0"
  let ?m = "complex_mag_squared ?z"
  have run: "escape_loop v max_iter c (?z, 1, ?m) = (z, iter, mag_sq)"
    using assms escape_loop_step[of 0 max_iter "flit 0 1" v c z0] first_test_passes by simp
  from escape_loop_result[OF run assms(1)] have one: "1 \<le> iter" by simp
  show ?thesis
  proof (cases "1 < max_iter \<and> fp_lt ?m (flit 16 1)")
    case True
    then have "escape_loop v max_iter c (loop_body v c ?z, 2, complex_mag_squared (loop_body v c ?z)) =
        (z, iter, mag_sq)"
      using run escape_loop_step[of 1 max_iter ?m v c ?z] by simp
    from escape_loop_result[OF this] True have "2 \<le> iter" by simp
    with True one show ?thesis by auto
  next
    case False
    then have "escape_loop v max_iter c (?z, 1, ?m) = (?z, 1, ?m)" by (rule escape_loop_stop)
    with run have "iter = 1" by simp
    with False assms(1) show ?thesis by auto
  qed
qed

theorem first_iteration_always_runs_witness:
  "(1::int) \<le> MAX_ITER \<and>
   escape_loop Julia MAX_ITER (make_float2 (flit 0 1) (flit 0 1))
     (make_float2 (flit 5 1) (flit 0 1), 0, flit 0 1) =
     (make_float2 (flit 25 1) (flit 0 1), 1, flit 625 1) \<and>
   \<not> fp_lt (complex_mag_squared
       (loop_body Julia (make_float2 (flit 0 1) (flit 0 1)) (make_float2 (flit 5 1) (flit 0 1))))
     (flit 16 1)"
proof -
  have m: "(1::int) \<le> MAX_ITER" by (simp add: MAX_ITER_def)
  show ?thesis
    using first_iteration_always_runs[OF m run_julia_5] m run_julia_5
    by (simp add: MAX_ITER_def)
qed

text \<open>
  As the claim states it, a Julia starting point outside the bailout radius reports one
  iteration. From \<open>z0 = (5, 0)\<close> with \<open>c = (-25, 0)\<close> the first iterate is \<open>(0, 0)\<close>, inside
  the radius, and the loop reports two.
\<close>

theorem julia_outside_start_counterexample:
  "fp_le (flit 16 1) (complex_mag_squared (make_float2 (flit 5 1) (flit 0 1))) \<and>
   escape_loop Julia MAX_ITER (make_float2 (fp_neg (flit 25 1)) (flit 0 1))
     (make_float2 (flit 5 1) (flit 0 1), 0, flit 0 1) =
     (make_float2 (fp_neg (flit 25 1)) (flit 0 1), 2, flit 625 1)"
  by (simp add: fp_eval loop_eval MAX_ITER_def)



text \<open>
  C7. Where \<^verbatim>\<open>fopen\<close> succeeds, for a buffer of \<open>width * height\<close> pixels (a product that
  fits \<^verbatim>\<open>int\<close>), \<^verbatim>\<open>save_ppm\<close> leaves a file that is exactly the header \<open>P6\<close>, newline,
  width, space, height, newline, \<open>255\<close>, newline, followed by exactly
  \<open>width * height * 3\<close> bytes, the red, green and blue byte of each element of the buffer
  in its order; and reading the file back gives the width, the height, \<open>255\<close> and that
  payload.
\<close>

theorem save_ppm_round_trip:
  assumes "filename \<in> writable w" and "0 \<le> width" and "0 \<le> height"
    and "width * height < 2 ^ 31" and "length img = nat (width * height)"
  shows "files (save_ppm filename img width height w) filename =
      Some (ascii (''P6'' @ [newline] @ decimal (nat width) @ '' '' @ decimal (nat height) @
                   [newline] @ ''255'' @ [newline]) @
            concat (map color_bytes img)) \<and>
    length (concat (map color_bytes img)) = nat (width * height * 3) \<and>
    (\<forall>i<length img.
       take 3 (drop (3 * i) (concat (map color_bytes img))) =
         [col_r (img ! i), col_g (img ! i), col_b (img ! i)]) \<and>
    Option.bind (files (save_ppm filename img width height w) filename) spec_parse_ppm =
      Some (nat width, nat height, 255, concat (map color_bytes img))"
proof -
  have f: "files (save_ppm filename img width height w) filename =
      Some (ascii (ppm_header width height) @ concat (map color_bytes img))"
    using assms(1,5) by (simp add: save_ppm_files ppm_bytes_def fwrite_colors_def)
  have h: "ppm_header width height =
      ''P6'' @ [newline] @ decimal (nat width) @ '' '' @ decimal (nat height) @
      [newline] @ ''255'' @ [newline]"
    using assms(2,3) by (simp add: ppm_header_def print_int_nonneg)
  have l: "length (concat (map color_bytes img)) = nat (width * height * 3)"
    using assms(2,3,5) by (simp add: length_color_bytes nat_mult_distrib)
  have b: "take 3 (drop (3 * i) (concat (map color_bytes img))) =
      [col_r (img ! i), col_g (img ! i), col_b (img ! i)]" if "i < length img" for i
    using color_bytes_at[OF that] by (cases "img ! i") simp
  show ?thesis
    unfolding f using parse_header[OF assms(2,3)] l b by (simp add: h)
qed

theorem save_ppm_round_trip_witness:
  "files (save_ppm ''a.ppm'' [Color 1 2 3, Color 4 5 6] 2 1 (world_without ''b.ppm'')) ''a.ppm'' =
     Some [80, 54, 10, 50, 32, 49, 10, 50, 53, 53, 10, 1, 2, 3, 4, 5, 6] \<and>
   Option.bind
     (files (save_ppm ''a.ppm'' [Color 1 2 3, Color 4 5 6] 2 1 (world_without ''b.ppm'')) ''a.ppm'')
     spec_parse_ppm = Some (2, 1, 255, [1, 2, 3, 4, 5, 6])"
proof -
  have w: "''a.ppm'' \<in> writable (world_without ''b.ppm'')" by (simp add: world_without_def)
  have d: "ascii (decimal 2) = [50]" "ascii (decimal 1) = [49]"
    by (simp_all add: decimal.simps ascii_def of_char_digit)
  note t = save_ppm_round_trip[OF w, of 2 1 "[Color 1 2 3, Color 4 5 6]"]
  have f: "files (save_ppm ''a.ppm'' [Color 1 2 3, Color 4 5 6] 2 1 (world_without ''b.ppm''))
      ''a.ppm'' = Some [80, 54, 10, 50, 32, 49, 10, 50, 53, 53, 10, 1, 2, 3, 4, 5, 6]"
    using t[THEN conjunct1] d by (simp add: newline_def) (simp add: ascii_def)
  have p: "Option.bind
      (files (save_ppm ''a.ppm'' [Color 1 2 3, Color 4 5 6] 2 1 (world_without ''b.ppm'')) ''a.ppm'')
      spec_parse_ppm = Some (2, 1, 255, [1, 2, 3, 4, 5, 6])"
    using t[THEN conjunct2, THEN conjunct2, THEN conjunct2] by simp
  show ?thesis using f p by blast
qed

text \<open>
  C8. When \<^verbatim>\<open>fopen\<close> fails, \<^verbatim>\<open>save_ppm\<close> prints the error line and returns with every file
  as it was. In \<^verbatim>\<open>main\<close>, a scene whose file cannot be opened leaves that file as it was and
  its error line in the output; every scene whose file can be opened leaves its image,
  whichever other scenes failed; and \<^verbatim>\<open>main\<close> returns \<open>0\<close>.
\<close>

theorem open_failure_skips_scene:
  assumes "length schedules = length jobs"
    and "\<forall>s\<in>set schedules. schedule_of gridSize blockSize s"
    and "length d_image = WIDTH * HEIGHT"
    and "j \<in> set jobs"
  shows "(filename \<notin> writable w \<longrightarrow>
       save_ppm filename img width height w =
         printf (''Error: Could not open file '' @ filename @ [newline]) w \<and>
       files (save_ppm filename img width height w) = files w) \<and>
    fst (main D schedules d_image w) = 0 \<and>
    (filename_of j \<notin> writable w \<longrightarrow>
       files (snd (main D schedules d_image w)) (filename_of j) = files w (filename_of j) \<and>
       (\<exists>pre post. printed (snd (main D schedules d_image w)) =
          pre @ ''Error: Could not open file '' @ filename_of j @ [newline] @ post)) \<and>
    (filename_of j \<in> writable w \<longrightarrow>
       files (snd (main D schedules d_image w)) (filename_of j) =
         Some (ppm_bytes
                (rendered (scene_pixel D (int WIDTH) (int HEIGHT) (scene_of j)) WIDTH HEIGHT)
                (int WIDTH) (int HEIGHT)))"
proof -
  note r = main_result[OF assms, where D = D and w = w]
  have "filename \<notin> writable w \<longrightarrow>
       save_ppm filename img width height w =
         printf (''Error: Could not open file '' @ filename @ [newline]) w \<and>
       files (save_ppm filename img width height w) = files w"
    by (simp add: save_ppm_def)
  then show ?thesis using r by simp
qed

theorem open_failure_skips_scene_witness:
  "files (snd (main unit_device (replicate 7 (grid_schedule gridSize blockSize)) blank_image
                (world_without ''julia_1.ppm''))) ''julia_1.ppm'' = None \<and>
   files (snd (main unit_device (replicate 7 (grid_schedule gridSize blockSize)) blank_image
                (world_without ''julia_1.ppm''))) ''julia_2.ppm'' =
     Some (ppm_bytes
            (rendered (scene_pixel unit_device (int WIDTH) (int HEIGHT)
               (JuliaScene (fp_neg (dlit 4 10)) (dlit 6 10) (dlit 1 1))) WIDTH HEIGHT)
            (int WIDTH) (int HEIGHT)) \<and>
   fst (main unit_device (replicate 7 (grid_schedule gridSize blockSize)) blank_image
          (world_without ''julia_1.ppm'')) = 0"
proof -
  have l: "length (replicate 7 (grid_schedule gridSize blockSize)) = length jobs"
    by (simp add: jobs_def)
  have s: "\<forall>s\<in>set (replicate 7 (grid_schedule gridSize blockSize)).
      schedule_of gridSize blockSize s"
    by (simp add: grid_schedule_ok)
  have d: "length blank_image = WIDTH * HEIGHT" by (simp add: blank_image_def)
  have j3: "jobs ! 2 \<in> set jobs" and j4: "jobs ! 3 \<in> set jobs" by (simp_all add: jobs_def)
  show ?thesis
    using open_failure_skips_scene[OF l s d j3, of "''julia_1.ppm''" "world_without ''julia_1.ppm''"]
      open_failure_skips_scene[OF l s d j4, of "''julia_1.ppm''" "world_without ''julia_1.ppm''"]
    by (simp add: jobs_def world_without_def)
qed


text \<open>
  C5. For every constant and cap, if no state the Mandelbrot loop squares on its way from
  \<open>z0 = (0, 0)\<close> has a negative real or imaginary part, the Burning Ship loop returns the
  same final state, the same iteration count and the same squared magnitude.
\<close>

theorem burning_ship_agrees_with_mandelbrot:
  assumes "0 \<le> max_iter"
    and "escape_loop Mandelbrot max_iter c (origin, 0, flit 0 1) = (z, iter, mag_sq)"
    and "\<forall>k<nat iter.
           \<not> fp_lt (f2_x ((loop_body Mandelbrot c ^^ k) origin)) (flit 0 1) \<and>
           \<not> fp_lt (f2_y ((loop_body Mandelbrot c ^^ k) origin)) (flit 0 1)"
  shows "escape_loop BurningShip max_iter c (origin, 0, flit 0 1) = (z, iter, mag_sq)"
proof -
  have "\<forall>k<nat (iter - 0).
      fp_abs (f2_x ((loop_body Mandelbrot c ^^ k) origin)) =
        f2_x ((loop_body Mandelbrot c ^^ k) origin) \<and>
      fp_abs (f2_y ((loop_body Mandelbrot c ^^ k) origin)) =
        f2_y ((loop_body Mandelbrot c ^^ k) origin)"
  proof (intro allI impI)
    fix k
    assume k: "k < nat (iter - 0)"
    have "\<forall>j\<le>k. \<not> fp_lt (f2_x ((loop_body Mandelbrot c ^^ j) origin)) (flit 0 1) \<and>
        \<not> fp_lt (f2_y ((loop_body Mandelbrot c ^^ j) origin)) (flit 0 1)"
      using assms(3) k by simp
    then show "fp_abs (f2_x ((loop_body Mandelbrot c ^^ k) origin)) =
        f2_x ((loop_body Mandelbrot c ^^ k) origin) \<and>
      fp_abs (f2_y ((loop_body Mandelbrot c ^^ k) origin)) =
        f2_y ((loop_body Mandelbrot c ^^ k) origin)"
      by (rule trajectory_abs_fixed)
  qed
  with assms(2) assms(1) show ?thesis by (rule lockstep)
qed

theorem burning_ship_agrees_with_mandelbrot_witness:
  "escape_loop Mandelbrot MAX_ITER (make_float2 (flit 2 1) (flit 2 1)) (origin, 0, flit 0 1) =
     (make_float2 (flit 2 1) (flit 10 1), 2, flit 104 1) \<and>
   escape_loop BurningShip MAX_ITER (make_float2 (flit 2 1) (flit 2 1)) (origin, 0, flit 0 1) =
     (make_float2 (flit 2 1) (flit 10 1), 2, flit 104 1)"
proof -
  have m: "0 \<le> MAX_ITER" by (simp add: MAX_ITER_def)
  show ?thesis
    using burning_ship_agrees_with_mandelbrot[OF m run_c22 trajectory_c22] run_c22 by simp
qed

text \<open>
  C2. For the Mandelbrot and the Burning Ship kernel, every pixel and every view, the plane
  mapper gives \<open>re = center_x + (x - width/2) * scale\<close> and
  \<open>im = center_y \<plusminus> (y - height/2) * scale\<close> with \<open>scale = 4.0 / (zoom * min(width, height))\<close>,
  minus for the Burning Ship. The Julia kernel has no centre: it gives
  \<open>re = (x - width/2) * scale\<close> and \<open>im = (y - height/2) * scale\<close>. All of it is computed in
  \<^verbatim>\<open>double\<close>, and each kernel narrows the pair to \<^verbatim>\<open>float\<close> where it enters the loop.
\<close>

theorem plane_mapper_formula:
  "kernel_plane Mandelbrot V width height x y = spec_plane_mapper Mandelbrot V width height x y \<and>
   kernel_plane BurningShip V width height x y =
     spec_plane_mapper BurningShip V width height x y \<and>
   kernel_plane Julia V width height x y =
     (spec_shift x width (spec_scale V width height),
      spec_shift y height (spec_scale V width height)) \<and>
   mandelbrot_pixel D width height (view_center_x V) (view_center_y V) (view_zoom V) x y =
     color_of D MAX_ITER (escape_loop Mandelbrot MAX_ITER
       (narrow (kernel_plane Mandelbrot V width height x y)) (origin, 0, flit 0 1)) \<and>
   julia_pixel D width height julia_real julia_imag (view_zoom V) x y =
     color_of D MAX_ITER (escape_loop Julia MAX_ITER (narrow (julia_real, julia_imag))
       (narrow (kernel_plane Julia V width height x y), 0, flit 0 1)) \<and>
   burning_ship_pixel D width height (view_center_x V) (view_center_y V) (view_zoom V) x y =
     color_of D MAX_ITER (escape_loop BurningShip MAX_ITER
       (narrow (kernel_plane BurningShip V width height x y)) (origin, 0, flit 0 1))"
  by (simp add: mandelbrot_plane_def julia_plane_def burning_ship_plane_def plane_offset_def
        plane_scale_def spec_shift_def spec_scale_def mandelbrot_pixel_def julia_pixel_def
        burning_ship_pixel_def del: color_of.simps narrow.simps)

text \<open>
  As the claim states it, the Julia mapper adds the centre of the view. For the view with
  centre \<open>(1, 0)\<close> and zoom \<open>1.0\<close> at 1920 by 1080, the formula of the claim gives
  \<open>(1, 0)\<close> at the pixel \<open>(960, 540)\<close>; the Julia kernel gives \<open>(0, 0)\<close>.
\<close>

theorem julia_centre_counterexample:
  "kernel_plane Julia (View (dlit 1 1) (dlit 0 1) (dlit 1 1)) 1920 1080 960 540 =
     (dlit 0 1, dlit 0 1) \<and>
   spec_plane_mapper Julia (View (dlit 1 1) (dlit 0 1) (dlit 1 1)) 1920 1080 960 540 =
     (dlit 1 1, dlit 0 1) \<and>
   dlit 1 1 \<noteq> dlit 0 1"
proof -
  have j: "julia_plane 1920 1080 (dlit 1 1) 960 540 = (dlit 0 1, dlit 0 1)"
    unfolding julia_center by (simp add: dlit_values)
  then have s: "spec_shift 960 1920 (spec_scale (View (dlit 1 1) (dlit 0 1) (dlit 1 1)) 1920 1080) =
      dlit 0 1"
    "spec_shift 540 1080 (spec_scale (View (dlit 1 1) (dlit 0 1) (dlit 1 1)) 1920 1080) =
      dlit 0 1"
    by (simp_all add: julia_plane_def plane_offset_def plane_scale_def spec_shift_def
          spec_scale_def)
  have a: "dadd (dlit 1 1) (dlit 0 1) = dlit 1 1" "dadd (dlit 0 1) (dlit 0 1) = dlit 0 1"
    using one_plus_zero by (simp_all add: dlit_values dadd_def sval_def fp_sum_def)
  show ?thesis
    by (simp add: j s a) (simp add: dlit_values)
qed

text \<open>
  C3. For every escape result with \<open>iter \<le> max_iter\<close>, the colour is black when
  \<open>iter = max_iter\<close>; otherwise each channel is the conversion to \<^verbatim>\<open>unsigned char\<close> of
  \<open>255 * (0.5 + 0.5 * sinf((iter + smooth) * 0.05 + phase)) * (1 - expf(-0.1 * iter))\<close> with
  \<open>smooth = logf(logf(sqrtf(mag_sq))) / logf(2)\<close> and the phases none, \<^verbatim>\<open>2.094f\<close> and
  \<^verbatim>\<open>4.188f\<close>, the single-precision constants \<open>8782873 / 2^22\<close> and \<open>8782873 / 2^21\<close>, which
  lie below \<open>2\<pi>/3\<close> and \<open>4\<pi>/3\<close>. The conversion truncates a value in \<open>[0, 256)\<close>, and every
  channel lies in \<open>[0, 255]\<close>.
\<close>

theorem smooth_color_mapper:
  assumes "iter \<le> max_iter"
  shows "color_of D max_iter (z, iter, mag_sq) = spec_color D max_iter iter mag_sq \<and>
    spec_color D max_iter max_iter mag_sq = Color 0 0 0 \<and>
    unat (col_r (spec_color D max_iter iter mag_sq)) \<le> 255 \<and>
    unat (col_g (spec_color D max_iter iter mag_sq)) \<le> 255 \<and>
    unat (col_b (spec_color D max_iter iter mag_sq)) \<le> 255 \<and>
    (n < 256 * 2 ^ 149 \<longrightarrow> unat (float_to_uchar D (Fin False n)) = n div 2 ^ 149) \<and>
    fp_value binary32 (flit 2094 1000) = Some (8782873 / 2 ^ 22) \<and>
    fp_value binary32 (flit 4188 1000) = Some (8782873 / 2 ^ 21) \<and>
    (8782873 / 2 ^ 22 :: real) < 2 * pi / 3 \<and> (8782873 / 2 ^ 21 :: real) < 4 * pi / 3"
proof -
  have "color_of D max_iter (z, iter, mag_sq) = spec_color D max_iter iter mag_sq"
    using assms
    by (simp add: get_color_def smooth_iter_of_def shade_def channel_def wave_def
          brightness_def color_t_def spec_color_def spec_rgb_def spec_byte_def
          spec_intensity_def spec_attenuation_def spec_smooth_def)
  moreover have "spec_color D max_iter max_iter mag_sq = Color 0 0 0"
    by (simp add: spec_color_def)
  moreover have "fp_value binary32 (flit 2094 1000) = Some (8782873 / 2 ^ 22)"
    "fp_value binary32 (flit 4188 1000) = Some (8782873 / 2 ^ 21)"
    using phase_values by simp_all
  moreover have "(8782873 / 2 ^ 22 :: real) < 2 * pi / 3" "(8782873 / 2 ^ 21 :: real) < 4 * pi / 3"
    using phases_below by simp_all
  moreover have "n < 256 * 2 ^ 149 \<longrightarrow> unat (float_to_uchar D (Fin False n)) = n div 2 ^ 149"
    using float_to_uchar_truncates[of n D] by blast
  ultimately show ?thesis
    using byte_range by blast
qed

theorem smooth_color_mapper_witness:
  "(1::int) \<le> 1000 \<and>
   color_of unit_device 1000 (origin, 1, flit 625 1) = spec_color unit_device 1000 1 (flit 625 1) \<and>
   3 * 2 ^ 148 < (256 * 2 ^ 149 :: nat) \<and>
   unat (float_to_uchar unit_device (Fin False (3 * 2 ^ 148))) = 1"
proof -
  have i: "(1::int) \<le> 1000" by simp
  have "3 * 2 ^ 148 div 2 ^ 149 = (1::nat)" by simp
  then show ?thesis
    using smooth_color_mapper[OF i, of unit_device origin "flit 625 1" "3 * 2 ^ 148"]
    by simp
qed

text \<open>
  As the claim states it, the green and blue phases are exactly \<open>2\<pi>/3\<close> and \<open>4\<pi>/3\<close>. The
  green and blue channels of \<^verbatim>\<open>get_color\<close> add the constants \<^verbatim>\<open>2.094f\<close> and \<^verbatim>\<open>4.188f\<close>, whose
  values are strictly below.
\<close>

theorem phase_counterexample:
  "col_g (get_color unit_device 1000 1 (flit 0 1)) =
     channel unit_device
       (wave unit_device (fadd (color_t 1 (flit 0 1)) (flit 2094 1000))) (brightness unit_device 1) \<and>
   col_b (get_color unit_device 1000 1 (flit 0 1)) =
     channel unit_device
       (wave unit_device (fadd (color_t 1 (flit 0 1)) (flit 4188 1000))) (brightness unit_device 1) \<and>
   fp_value binary32 (flit 2094 1000) = Some (8782873 / 4194304) \<and>
   (8782873 / 4194304 :: real) \<noteq> 2 * pi / 3 \<and>
   fp_value binary32 (flit 4188 1000) = Some (8782873 / 2097152) \<and>
   (8782873 / 2097152 :: real) \<noteq> 4 * pi / 3"
proof -
  have "(8782873 / 4194304 :: real) \<noteq> 2 * pi / 3" "(8782873 / 2097152 :: real) \<noteq> 4 * pi / 3"
    using phases_below by simp_all
  then show ?thesis
    using phase_values by (simp add: get_color_def shade_def)
qed




end
